theory Spec2Isabelle
  imports Main "HOL-Library.Word"
begin

unbundle bit_operations_syntax

section \<open>Machine types and failures\<close>

text \<open>
  The source declares \<open>U8\<close>, \<open>U16\<close> and \<open>U32\<close> as unsigned char, short and int; the
  entry points take and return \<open>size_t\<close>, taken as 64 bits wide. Values of C type
  \<open>int\<close> are modelled as unbounded integers; where such a value is converted to
  \<open>U32\<close> the conversion \<open>word_of_int\<close> reduces it modulo \<open>2 ^ 32\<close>.
\<close>

type_synonym U8 = "8 word"
type_synonym U32 = "32 word"
type_synonym size_t = "64 word"

text \<open>
  A failed \<open>assert\<close>, a dereferenced null pointer and a read outside the memory a
  pointer refers to end the run; each is a value of \<open>error\<close>.
\<close>

datatype error = AssertFailed | NullDeref | OutOfBounds

section \<open>StateMap\<close>

text \<open>
  Class \<open>StateMap\<close>: \<open>N\<close> contexts, the context \<open>cxt\<close> of the last prediction and the
  table \<open>t\<close> of \<open>N\<close> cells. The fields carry the prefix \<open>sm_\<close>.
\<close>

record StateMap =
  sm_N :: int
  sm_cxt :: int
  sm_t :: "U32 list"

text \<open>
  The static table \<open>dt\<close> starts as 256 zeros and is filled by the first constructor
  that finds \<open>dt[0] == 0\<close>.
\<close>

definition dt_fill :: "int list \<Rightarrow> int list" where
  "dt_fill d = (if d ! 0 = 0 then map (\<lambda>i. 32768 div (int i + int i + 3)) [0..<256] else d)"

definition dt :: "int list" where
  "dt = dt_fill (replicate 256 0)"

text \<open>The value stored in cell \<open>i\<close> by the constructor's loop.\<close>

definition init_cell :: "int \<Rightarrow> U32" where
  "init_cell i =
     (let n :: U32 = word_of_int ((i AND 1) * 2 + (i AND 2) + (drop_bit 2 i AND 1)
                       + (drop_bit 3 i AND 1) + (drop_bit 4 i AND 1) + (drop_bit 5 i AND 1)
                       + (drop_bit 6 i AND 1) + (drop_bit 7 i AND 1) + 3)
      in push_bit 28 n OR 6)"

definition StateMap_init :: "int \<Rightarrow> StateMap" where
  "StateMap_init n = \<lparr>sm_N = n, sm_cxt = 0, sm_t = map (\<lambda>i. init_cell (int i)) [0..<nat n]\<rparr>"

text \<open>\<open>StateMap::p\<close>: record the context, return the top 16 bits of its cell.\<close>

definition StateMap_p :: "int \<Rightarrow> StateMap \<Rightarrow> error + (int \<times> StateMap)" where
  "StateMap_p cx s =
     (if \<not> (cx \<ge> 0 \<and> cx < sm_N s) then Inl AssertFailed
      else Inr (uint (drop_bit 16 (sm_t s ! nat cx)), s\<lparr>sm_cxt := cx\<rparr>))"

text \<open>
  \<open>StateMap::update\<close>. The product \<open>((y<<18)-p)*dt[n]\<close> is computed in \<open>int\<close> and
  converted to unsigned by the mask \<open>0xffffff00\<close>.
\<close>

definition StateMap_update :: "int \<Rightarrow> int \<Rightarrow> StateMap \<Rightarrow> error + StateMap" where
  "StateMap_update y limit s =
     (if \<not> (sm_cxt s \<ge> 0 \<and> sm_cxt s < sm_N s) then Inl AssertFailed
      else if \<not> (y = 0 \<or> y = 1) then Inl AssertFailed
      else if \<not> (limit \<ge> 0 \<and> limit < 255) then Inl AssertFailed
      else
        let c = nat (sm_cxt s);
            n = uint (sm_t s ! c AND 255);
            p = uint (drop_bit 14 (sm_t s ! c));
            t1 = (if n < limit then (sm_t s)[c := sm_t s ! c + 1] else sm_t s);
            t2 = t1[c := t1 ! c + (word_of_int ((push_bit 18 y - p) * dt ! nat n) AND 0xffffff00)]
        in Inr (s\<lparr>sm_t := t2\<rparr>))"

section \<open>Predictor\<close>

text \<open>Class \<open>Predictor\<close>; the fields carry the prefix \<open>pr_\<close>.\<close>

record Predictor =
  pr_cxt :: int
  pr_sm :: StateMap
  pr_state :: "int list"

definition Predictor_init :: Predictor where
  "Predictor_init = \<lparr>pr_cxt = 0, pr_sm = StateMap_init 0x10000, pr_state = replicate 0x100 0x66\<rparr>"

definition Predictor_p :: "Predictor \<Rightarrow> error + (int \<times> Predictor)" where
  "Predictor_p pr =
     (case StateMap_p (push_bit 8 (pr_cxt pr) OR pr_state pr ! nat (pr_cxt pr)) (pr_sm pr) of
        Inl e \<Rightarrow> Inl e
      | Inr (v, s) \<Rightarrow> Inr (v, pr\<lparr>pr_sm := s\<rparr>))"

definition Predictor_update :: "int \<Rightarrow> Predictor \<Rightarrow> error + Predictor" where
  "Predictor_update y pr =
     (case StateMap_update y 90 (pr_sm pr) of
        Inl e \<Rightarrow> Inl e
      | Inr s \<Rightarrow>
          let c = nat (pr_cxt pr);
              st = (pr_state pr ! c + pr_state pr ! c + y) AND 255;
              cx = pr_cxt pr + pr_cxt pr + y
          in Inr (pr\<lparr>pr_sm := s, pr_state := (pr_state pr)[c := st],
                      pr_cxt := (if cx \<ge> 256 then 0 else cx)\<rparr>))"

section \<open>Caller memory\<close>

text \<open>
  A pointer is \<open>None\<close> when null. An input pointer otherwise refers to the bytes that
  may be read through it; reading at or beyond their end is a failure. An output pointer
  otherwise refers to a store that records every byte written through it, by index.
\<close>

definition read_byte :: "U8 list option \<Rightarrow> nat \<Rightarrow> error + U8" where
  "read_byte buf i =
     (case buf of
        None \<Rightarrow> Inl NullDeref
      | Some m \<Rightarrow> if i < length m then Inr (m ! i) else Inl OutOfBounds)"

definition write_byte :: "(nat \<rightharpoonup> U8) option \<Rightarrow> nat \<Rightarrow> U8 \<Rightarrow> error + (nat \<rightharpoonup> U8) option" where
  "write_byte buf i v =
     (case buf of
        None \<Rightarrow> Inl NullDeref
      | Some m \<Rightarrow> Inr (Some (m(i \<mapsto> v))))"

section \<open>Encoder\<close>

datatype Mode = COMPRESS | DECOMPRESS

text \<open>Class \<open>Encoder\<close>; the range and the window are the fields \<open>enc_x1\<close>, \<open>enc_x2\<close>, \<open>enc_x\<close>.\<close>

record Encoder =
  predictor :: Predictor
  mode :: Mode
  inBuf :: "U8 list option"
  outBuf :: "(nat \<rightharpoonup> U8) option"
  bufIdx :: U32
  bufSize :: U32
  enc_x1 :: U32
  enc_x2 :: U32
  enc_x :: U32

text \<open>The constructor for COMPRESS mode.\<close>

definition Encoder_init_compress :: "Mode \<Rightarrow> (nat \<rightharpoonup> U8) option \<Rightarrow> U32 \<Rightarrow> error + Encoder" where
  "Encoder_init_compress m buf sz =
     (if COMPRESS \<noteq> m then Inl AssertFailed
      else Inr \<lparr>predictor = Predictor_init, mode = m, inBuf = None, outBuf = buf, bufIdx = 0,
                bufSize = sz, enc_x1 = 0, enc_x2 = 0xffffffff, enc_x = 0\<rparr>)"

text \<open>\<open>c = inBuf[bufIdx++]\<close>\<close>

definition next_in :: "Encoder \<Rightarrow> error + (int \<times> Encoder)" where
  "next_in e =
     (case read_byte (inBuf e) (unat (bufIdx e)) of
        Inl er \<Rightarrow> Inl er
      | Inr b \<Rightarrow> Inr (uint b, e\<lparr>bufIdx := bufIdx e + 1\<rparr>))"

text \<open>\<open>outBuf[bufIdx++] = v\<close>\<close>

definition put_out :: "U8 \<Rightarrow> Encoder \<Rightarrow> error + Encoder" where
  "put_out v e =
     (case write_byte (outBuf e) (unat (bufIdx e)) v of
        Inl er \<Rightarrow> Inl er
      | Inr b \<Rightarrow> Inr (e\<lparr>outBuf := b, bufIdx := bufIdx e + 1\<rparr>))"

text \<open>
  The constructor for DECOMPRESS mode; \<open>init_x k\<close> is the last \<open>k\<close> iterations of its
  loop \<open>for (int i=0; i<4; ++i)\<close>.
\<close>

fun init_x :: "nat \<Rightarrow> Encoder \<Rightarrow> error + Encoder" where
  "init_x 0 e = Inr e"
| "init_x (Suc k) e =
     (case (if bufIdx e \<le> bufSize e then next_in e else Inr (0, e)) of
        Inl er \<Rightarrow> Inl er
      | Inr (c, e') \<Rightarrow> init_x k (e'\<lparr>enc_x := push_bit 8 (enc_x e') + word_of_int (c AND 0xff)\<rparr>))"

definition Encoder_init_decompress :: "Mode \<Rightarrow> U8 list option \<Rightarrow> U32 \<Rightarrow> error + Encoder" where
  "Encoder_init_decompress m buf sz =
     (let e = \<lparr>predictor = Predictor_init, mode = m, inBuf = buf, outBuf = None, bufIdx = 0,
                bufSize = sz, enc_x1 = 0, enc_x2 = 0xffffffff, enc_x = 0\<rparr>
      in if DECOMPRESS \<noteq> m then Inl AssertFailed
         else if mode e = DECOMPRESS then init_x 4 e else Inr e)"

text \<open>The split point of the range \<open>[x1, x2]\<close> for the probability \<open>p\<close>.\<close>

definition xmid_of :: "U32 \<Rightarrow> U32 \<Rightarrow> U32 \<Rightarrow> U32" where
  "xmid_of x1 x2 p = x1 + drop_bit 16 (x2 - x1) * p + drop_bit 16 (((x2 - x1) AND 0xffff) * p)"

definition msb_equal :: "Encoder \<Rightarrow> bool" where
  "msb_equal e \<longleftrightarrow> (enc_x1 e XOR enc_x2 e) AND 0xff000000 = 0"

definition shift_range :: "Encoder \<Rightarrow> Encoder" where
  "shift_range e = e\<lparr>enc_x1 := push_bit 8 (enc_x1 e), enc_x2 := push_bit 8 (enc_x2 e) + 255\<rparr>"

text \<open>
  The loop \<open>while (((x1^x2)&0xff000000)==0)\<close> ends because each pass shifts the
  difference \<open>x1 XOR x2\<close> left by a byte and fills it with ones.
\<close>

lemma push8_and_255: "push_bit 8 (b::U32) AND 255 = 0"
proof -
  have "(255::U32) = mask 8" by (simp add: mask_eq_exp_minus_1)
  then show ?thesis by (simp add: bit_eq_iff bit_simps)
qed

lemma push8_plus_255: "push_bit 8 (b::U32) + 255 = push_bit 8 b OR mask 8"
proof -
  have m: "(255::U32) = mask 8" by (simp add: mask_eq_exp_minus_1)
  have "push_bit 8 b + 255 = push_bit 8 b OR (255::U32)"
    by (rule disjunctive_add_eq_or) (rule push8_and_255)
  then show ?thesis by (simp add: m)
qed

lemma xor_shift: "push_bit 8 (a::U32) XOR (push_bit 8 b + 255) = push_bit 8 (a XOR b) + 255"
  unfolding push8_plus_255 by (auto simp add: bit_eq_iff bit_simps)

lemma msb_iff_drop: "((a XOR b) AND 0xff000000 = (0::U32)) = (drop_bit 24 a = drop_bit 24 b)"
proof -
  have c: "(0xff000000::U32) = push_bit 24 (mask 8)" by (simp add: mask_eq_exp_minus_1)
  have "((a XOR b) AND push_bit 24 (mask 8) = 0) = (\<forall>n. 24 \<le> n \<longrightarrow> n < 32 \<longrightarrow> bit a n = bit b n)"
    apply (simp add: bit_eq_iff bit_simps)
    apply (rule iffI)
     apply clarsimp
    subgoal for n by (drule spec[of _ n]) auto
    apply auto
    done
  moreover have "(drop_bit 24 a = drop_bit 24 b) = (\<forall>n. 24 \<le> n \<longrightarrow> n < 32 \<longrightarrow> bit a n = bit b n)"
    apply (simp add: bit_eq_iff bit_simps)
    apply (rule iffI)
     apply clarsimp
    subgoal for n by (drule spec[of _ "n - 24"]) auto
    apply clarsimp
    subgoal for n by (drule spec[of _ "n + 24"]) (auto simp: add.commute dest: bit_imp_le_length)
    done
  ultimately show ?thesis unfolding c by simp
qed

lemma msb_iff_unat:
  "((a XOR b) AND 0xff000000 = (0::U32)) = (unat a div 2 ^ 24 = unat b div 2 ^ 24)"
proof -
  have "(drop_bit 24 a = drop_bit 24 b) = (unat (drop_bit 24 a) = unat (drop_bit 24 b))"
    by (simp only: word_unat_eq_iff)
  also have "\<dots> = (unat a div 2 ^ 24 = unat b div 2 ^ 24)"
    by (simp add: unat_drop_bit_eq) (simp add: drop_bit_eq_div)
  finally show ?thesis by (simp only: msb_iff_drop)
qed

lemma unat_push8: "unat (push_bit 8 (a::U32)) = (unat a * 256) mod 2 ^ 32"
  by (simp add: push_bit_eq_mult unat_word_ariths)

lemma unat_push8_255: "unat (push_bit 8 (a::U32) + 255) = (unat a * 256 + 255) mod 2 ^ 32"
  by (simp add: push_bit_eq_mult unat_word_ariths mod_simps)

lemma shift_measure:
  assumes "(a XOR b) AND 0xff000000 = (0::U32)"
  shows "unat (a XOR b) < unat (push_bit 8 a XOR (push_bit 8 b + 255))"
proof -
  from assms have "unat (a XOR b) div 2 ^ 24 = 0"
    using msb_iff_unat[of "a XOR b" 0] by simp
  then have "unat (a XOR b) < 2 ^ 24" by (simp add: div_eq_0_iff)
  then show ?thesis
    by (simp only: xor_shift unat_push8_255) simp
qed

lemma put_out_range:
  "put_out v e = Inr e' \<Longrightarrow> enc_x1 e' = enc_x1 e \<and> enc_x2 e' = enc_x2 e"
  by (auto simp: put_out_def split: sum.splits)

lemma next_in_range:
  "next_in e = Inr (c, e') \<Longrightarrow> enc_x1 e' = enc_x1 e \<and> enc_x2 e' = enc_x2 e"
  by (auto simp: next_in_def split: sum.splits)

text \<open>
  The loop "shift equal MSB's out" of \<open>encode\<close>, which \<open>flush\<close> repeats word for word:
  the result is \<open>False\<close> where the source returns false from inside the loop.
\<close>

function shift_out :: "Encoder \<Rightarrow> error + (bool \<times> Encoder)" where
  "shift_out e =
     (if msb_equal e then
        (if bufIdx e < bufSize e then
           (case put_out (ucast (drop_bit 24 (enc_x2 e))) e of
              Inl er \<Rightarrow> Inl er
            | Inr e' \<Rightarrow> shift_out (shift_range e'))
         else Inr (False, e))
      else Inr (True, e))"
  by pat_completeness auto
termination
proof (relation "measure (\<lambda>e. 2 ^ 32 - unat (enc_x1 e XOR enc_x2 e))")
  show "wf (measure (\<lambda>e. 2 ^ 32 - unat (enc_x1 e XOR enc_x2 e)))" by simp
next
  fix e e'
  assume m: "msb_equal e" and p: "put_out (ucast (drop_bit 24 (enc_x2 e))) e = Inr e'"
  have lt: "unat (enc_x1 e XOR enc_x2 e) < unat (push_bit 8 (enc_x1 e) XOR (push_bit 8 (enc_x2 e) + 255))"
    using m by (simp add: msb_equal_def shift_measure)
  have "unat (push_bit 8 (enc_x1 e) XOR (push_bit 8 (enc_x2 e) + 255)) < 2 ^ 32"
    using unsigned_less[of "push_bit 8 (enc_x1 e) XOR (push_bit 8 (enc_x2 e) + 255)"] by simp
  with lt show "(shift_range e', e) \<in> measure (\<lambda>e. 2 ^ 32 - unat (enc_x1 e XOR enc_x2 e))"
    using put_out_range[OF p] by (simp add: shift_range_def)
qed

declare shift_out.simps [simp del]

text \<open>\<open>Encoder::encode\<close>\<close>

definition encode :: "int \<Rightarrow> Encoder \<Rightarrow> error + (bool \<times> Encoder)" where
  "encode y e =
     (case Predictor_p (predictor e) of
        Inl er \<Rightarrow> Inl er
      | Inr (pv, pr1) \<Rightarrow>
          let p :: U32 = word_of_int pv in
          if \<not> p \<le> 0xffff then Inl AssertFailed
          else if \<not> (y = 0 \<or> y = 1) then Inl AssertFailed
          else
            let xmid = xmid_of (enc_x1 e) (enc_x2 e) p in
            if \<not> (xmid \<ge> enc_x1 e \<and> xmid < enc_x2 e) then Inl AssertFailed
            else
              let e1 = (if y \<noteq> 0 then e\<lparr>enc_x2 := xmid\<rparr> else e\<lparr>enc_x1 := xmid + 1\<rparr>) in
              (case Predictor_update y pr1 of
                 Inl er \<Rightarrow> Inl er
               | Inr pr2 \<Rightarrow> shift_out (e1\<lparr>predictor := pr2\<rparr>)))"

text \<open>The loop of \<open>decode\<close>, which reads a byte, or 0 past the end, on each pass.\<close>

function shift_in :: "Encoder \<Rightarrow> error + Encoder" where
  "shift_in e =
     (if msb_equal e then
        (case (if bufIdx (shift_range e) < bufSize (shift_range e) then next_in (shift_range e)
               else Inr (0, shift_range e)) of
           Inl er \<Rightarrow> Inl er
         | Inr (c, e') \<Rightarrow> shift_in (e'\<lparr>enc_x := push_bit 8 (enc_x e') + word_of_int c\<rparr>))
      else Inr e)"
  by pat_completeness auto
termination
proof (relation "measure (\<lambda>e. 2 ^ 32 - unat (enc_x1 e XOR enc_x2 e))")
  show "wf (measure (\<lambda>e. 2 ^ 32 - unat (enc_x1 e XOR enc_x2 e)))" by simp
next
  fix e x c e'
  assume m: "msb_equal e"
    and p: "(if bufIdx (shift_range e) < bufSize (shift_range e) then next_in (shift_range e)
             else Inr (0, shift_range e)) = Inr x"
    and x: "(c, e') = x"
  have r: "enc_x1 e' = push_bit 8 (enc_x1 e) \<and> enc_x2 e' = push_bit 8 (enc_x2 e) + 255"
    using p x next_in_range[of "shift_range e" c e']
    by (auto simp: shift_range_def split: if_splits)
  have lt: "unat (enc_x1 e XOR enc_x2 e) < unat (push_bit 8 (enc_x1 e) XOR (push_bit 8 (enc_x2 e) + 255))"
    using m by (simp add: msb_equal_def shift_measure)
  have "unat (push_bit 8 (enc_x1 e) XOR (push_bit 8 (enc_x2 e) + 255)) < 2 ^ 32"
    using unsigned_less[of "push_bit 8 (enc_x1 e) XOR (push_bit 8 (enc_x2 e) + 255)"] by simp
  with lt show "(e'\<lparr>enc_x := push_bit 8 (enc_x e') + word_of_int c\<rparr>, e)
      \<in> measure (\<lambda>e. 2 ^ 32 - unat (enc_x1 e XOR enc_x2 e))"
    using r by simp
qed

declare shift_in.simps [simp del]

text \<open>\<open>Encoder::decode\<close>\<close>

definition decode :: "Encoder \<Rightarrow> error + (int \<times> Encoder)" where
  "decode e =
     (case Predictor_p (predictor e) of
        Inl er \<Rightarrow> Inl er
      | Inr (pv, pr1) \<Rightarrow>
          let p :: U32 = word_of_int pv in
          if \<not> p \<le> 0xffff then Inl AssertFailed
          else
            let xmid = xmid_of (enc_x1 e) (enc_x2 e) p in
            if \<not> (xmid \<ge> enc_x1 e \<and> xmid < enc_x2 e) then Inl AssertFailed
            else
              let y = (if enc_x e \<le> xmid then 1 else 0);
                  e1 = (if enc_x e \<le> xmid then e\<lparr>enc_x2 := xmid\<rparr> else e\<lparr>enc_x1 := xmid + 1\<rparr>) in
              (case Predictor_update y pr1 of
                 Inl er \<Rightarrow> Inl er
               | Inr pr2 \<Rightarrow>
                   (case shift_in (e1\<lparr>predictor := pr2\<rparr>) of
                      Inl er \<Rightarrow> Inl er
                    | Inr e2 \<Rightarrow> Inr (y, e2))))"

text \<open>\<open>Encoder::flush\<close>\<close>

definition flush :: "Encoder \<Rightarrow> error + (bool \<times> Encoder)" where
  "flush e =
     (if mode e = COMPRESS then
        (case shift_out e of
           Inl er \<Rightarrow> Inl er
         | Inr (ok, e1) \<Rightarrow>
             if \<not> ok then Inr (False, e1)
             else if bufIdx e1 < bufSize e1 then
               (case put_out (ucast (drop_bit 24 (enc_x2 e1))) e1 of
                  Inl er \<Rightarrow> Inl er
                | Inr e2 \<Rightarrow> Inr (True, e2))
             else Inr (False, e1))
      else Inr (True, e))"

section \<open>Entry points\<close>

definition SIZE_MAX :: size_t where
  "SIZE_MAX = 0xffffffffffffffff"

text \<open>
  \<open>encode_bits k c\<close> is the last \<open>k\<close> passes of \<open>for (int i=7; i>=0; --i)\<close> over the
  byte \<open>c\<close>; the pass with \<open>i = k - 1\<close> comes first.
\<close>

fun encode_bits :: "nat \<Rightarrow> U8 \<Rightarrow> Encoder \<Rightarrow> error + (bool \<times> Encoder)" where
  "encode_bits 0 c e = Inr (True, e)"
| "encode_bits (Suc i) c e =
     (case encode (uint (drop_bit i c) AND 1) e of
        Inl er \<Rightarrow> Inl er
      | Inr (ok, e') \<Rightarrow> if \<not> ok then Inr (False, e') else encode_bits i c e')"

text \<open>
  The loop \<open>for (U32 idx = 0; idx < len; ++idx)\<close> of \<open>fpaq0f2_compress\<close>. The index is
  32 bits wide and \<open>len\<close> is not, so the loop is not bounded by \<open>len\<close>; a run that
  does not end has the value \<open>None\<close>. The result is \<open>False\<close> where the source
  returns \<open>bufsize + 1\<close>.
\<close>

partial_function (option) compress_loop ::
  "U8 list option \<Rightarrow> size_t \<Rightarrow> U32 \<Rightarrow> Encoder \<Rightarrow> (error + (bool \<times> Encoder)) option" where
  "compress_loop inp len idx e =
     (if ucast idx < len then
        (case read_byte inp (unat idx) of
           Inl er \<Rightarrow> Some (Inl er)
         | Inr c \<Rightarrow>
             (case encode 1 e of
                Inl er \<Rightarrow> Some (Inl er)
              | Inr (ok, e1) \<Rightarrow>
                  if \<not> ok then Some (Inr (False, e1))
                  else
                    (case encode_bits 8 c e1 of
                       Inl er \<Rightarrow> Some (Inl er)
                     | Inr (ok', e2) \<Rightarrow>
                         if \<not> ok' then Some (Inr (False, e2))
                         else compress_loop inp len (idx + 1) e2)))
      else Some (Inr (True, e)))"

text \<open>
  \<open>fpaq0f2_compress\<close>. The result is the returned \<open>size_t\<close> and the output store as the
  call leaves it.
\<close>

definition fpaq0f2_compress ::
  "U8 list option \<Rightarrow> size_t \<Rightarrow> (nat \<rightharpoonup> U8) option \<Rightarrow> size_t
     \<Rightarrow> (error + (size_t \<times> (nat \<rightharpoonup> U8) option)) option" where
  "fpaq0f2_compress inp len out bufsize =
     (if inp = None \<and> 0 < len then Some (Inr (SIZE_MAX, out))
      else if out = None \<and> 0 < bufsize then Some (Inr (SIZE_MAX, out))
      else
        (case Encoder_init_compress COMPRESS out (ucast bufsize) of
           Inl er \<Rightarrow> Some (Inl er)
         | Inr e \<Rightarrow>
             (case compress_loop inp len 0 e of
                None \<Rightarrow> None
              | Some (Inl er) \<Rightarrow> Some (Inl er)
              | Some (Inr (ok, e1)) \<Rightarrow>
                  if \<not> ok then Some (Inr (bufsize + 1, outBuf e1))
                  else
                    (case encode 0 e1 of
                       Inl er \<Rightarrow> Some (Inl er)
                     | Inr (ok2, e2) \<Rightarrow>
                         if \<not> ok2 then Some (Inr (bufsize + 1, outBuf e2))
                         else
                           (case flush e2 of
                              Inl er \<Rightarrow> Some (Inl er)
                            | Inr (ok3, e3) \<Rightarrow>
                                if \<not> ok3 then Some (Inr (bufsize + 1, outBuf e3))
                                else Some (Inr (ucast (bufIdx e3), outBuf e3)))))))"

text \<open>The loop \<open>while (c<256) c+=c+e.decode();\<close>\<close>

partial_function (option) decode_byte :: "int \<Rightarrow> Encoder \<Rightarrow> (error + (int \<times> Encoder)) option" where
  "decode_byte c e =
     (if c < 256 then
        (case decode e of
           Inl er \<Rightarrow> Some (Inl er)
         | Inr (y, e') \<Rightarrow> decode_byte (c + (c + y)) e')
      else Some (Inr (c, e)))"

text \<open>The loop \<open>while (e.decode())\<close> of \<open>fpaq0f2_decompress\<close>.\<close>

partial_function (option) decompress_loop ::
  "Encoder \<Rightarrow> U32 \<Rightarrow> (nat \<rightharpoonup> U8) option \<Rightarrow> size_t
     \<Rightarrow> (error + (size_t \<times> (nat \<rightharpoonup> U8) option)) option" where
  "decompress_loop e idx out bufsize =
     (case decode e of
        Inl er \<Rightarrow> Some (Inl er)
      | Inr (y, e1) \<Rightarrow>
          if y \<noteq> 0 then
            (case decode_byte 1 e1 of
               None \<Rightarrow> None
             | Some (Inl er) \<Rightarrow> Some (Inl er)
             | Some (Inr (c, e2)) \<Rightarrow>
                 if ucast idx < bufsize then
                   (case write_byte out (unat idx) (word_of_int (c - 256)) of
                      Inl er \<Rightarrow> Some (Inl er)
                    | Inr out' \<Rightarrow> decompress_loop e2 (idx + 1) out' bufsize)
                 else Some (Inr (bufsize + 1, out)))
          else Some (Inr (ucast idx, out)))"

definition fpaq0f2_decompress ::
  "U8 list option \<Rightarrow> size_t \<Rightarrow> (nat \<rightharpoonup> U8) option \<Rightarrow> size_t
     \<Rightarrow> (error + (size_t \<times> (nat \<rightharpoonup> U8) option)) option" where
  "fpaq0f2_decompress inp len out bufsize =
     (if inp = None \<and> 0 < len then Some (Inr (SIZE_MAX, out))
      else if out = None \<and> 0 < bufsize then Some (Inr (SIZE_MAX, out))
      else
        (case Encoder_init_decompress DECOMPRESS inp (ucast len) of
           Inl er \<Rightarrow> Some (Inl er)
         | Inr e \<Rightarrow> decompress_loop e 0 out bufsize))"

section \<open>The specification's formulas\<close>

text \<open>
  The number of one bits among bits 0 to 7, and the initial cell as the specification
  words it: \<open>(popcount(i & 0xFF) + 3) << 28 | 6\<close>.
\<close>

definition popcount8 :: "int \<Rightarrow> int" where
  "popcount8 i = (\<Sum>k\<leftarrow>[0..<8]. of_bool (bit i k))"

definition spec_init_cell :: "int \<Rightarrow> U32" where
  "spec_init_cell i = push_bit 28 (word_of_int (popcount8 (i AND 0xFF) + 3)) OR 6"

text \<open>
  The cell after \<open>update(y, limit)\<close> as the specification words it, every step in
  32-bit wrap-around arithmetic: with \<open>n = t & 0xFF\<close> and \<open>p = t >> 14\<close>,
  \<open>(t + (1 if n < limit else 0)) + ((((y << 18) - p) * dt[n]) & 0xFFFFFF00)\<close>.
\<close>

definition spec_update_cell :: "U32 \<Rightarrow> int \<Rightarrow> int \<Rightarrow> U32" where
  "spec_update_cell c y limit =
     (let n = c AND 0xFF; p = drop_bit 14 c
      in (c + (if uint n < limit then 1 else 0))
         + (((push_bit 18 (word_of_int y) - p) * word_of_int (dt ! unat n)) AND 0xFFFFFF00))"

section \<open>Invariants and reachable states\<close>

text \<open>
  The predictor's indices stay in range: \<open>cxt\<close> and every entry of \<open>state\<close> lie in
  0..255, and the StateMap has its 65536 cells. \<open>key_of\<close> is the context that
  \<open>Predictor::p\<close> passes to the StateMap.
\<close>

definition Predictor_ok :: "Predictor \<Rightarrow> bool" where
  "Predictor_ok pr \<longleftrightarrow>
     0 \<le> pr_cxt pr \<and> pr_cxt pr < 256 \<and> length (pr_state pr) = 256
     \<and> (\<forall>v \<in> set (pr_state pr). 0 \<le> v \<and> v < 256)
     \<and> sm_N (pr_sm pr) = 0x10000 \<and> length (sm_t (pr_sm pr)) = 0x10000"

definition key_of :: "Predictor \<Rightarrow> int" where
  "key_of pr = push_bit 8 (pr_cxt pr) OR pr_state pr ! nat (pr_cxt pr)"

text \<open>
  \<open>writes_below cap b b'\<close>: the output store \<open>b'\<close> differs from \<open>b\<close> only at indices
  below \<open>cap\<close>.
\<close>

definition writes_below :: "nat \<Rightarrow> (nat \<rightharpoonup> U8) option \<Rightarrow> (nat \<rightharpoonup> U8) option \<Rightarrow> bool" where
  "writes_below cap b b' \<longleftrightarrow>
     (case b of
        None \<Rightarrow> b' = None
      | Some m \<Rightarrow> (case b' of None \<Rightarrow> False | Some m' \<Rightarrow> \<forall>i. cap \<le> i \<longrightarrow> m' i = m i))"

text \<open>
  Between calls the coder's range is ordered and its top bytes differ. The reachable
  states of a coder are those of a new coder and those after a call of \<open>encode\<close> that
  returned true (the entry point stops at the first false), or after a call of \<open>decode\<close>.
\<close>

definition coder_ok :: "Encoder \<Rightarrow> bool" where
  "coder_ok e \<longleftrightarrow> Predictor_ok (predictor e) \<and> enc_x1 e \<le> enc_x2 e \<and> \<not> msb_equal e"

inductive enc_reach :: "Encoder \<Rightarrow> bool" where
  enc_init: "Encoder_init_compress COMPRESS out sz = Inr e \<Longrightarrow> enc_reach e"
| enc_step: "enc_reach e \<Longrightarrow> y = 0 \<or> y = 1 \<Longrightarrow> encode y e = Inr (True, e') \<Longrightarrow> enc_reach e'"

inductive dec_reach :: "Encoder \<Rightarrow> bool" where
  dec_init: "Encoder_init_decompress DECOMPRESS inp sz = Inr e \<Longrightarrow> dec_reach e"
| dec_step: "dec_reach e \<Longrightarrow> decode e = Inr (y, e') \<Longrightarrow> dec_reach e'"

text \<open>\<open>keeps_out e e'\<close>: from \<open>e\<close> to \<open>e'\<close> the capacity is the same and every store went below it.\<close>

definition keeps_out :: "Encoder \<Rightarrow> Encoder \<Rightarrow> bool" where
  "keeps_out e e' \<longleftrightarrow> bufSize e' = bufSize e \<and> writes_below (unat (bufSize e)) (outBuf e) (outBuf e')"

text \<open>
  What \<open>StateMap::update\<close> does to the cell of the last prediction, as a function of
  the cell; \<open>cnt\<close> is the cell's count, \<open>p18\<close> and \<open>p16\<close> its top 18 and 16 bits and
  \<open>dtn\<close> the entry of \<open>dt\<close> for its count, as natural numbers.
\<close>

definition cell_update :: "int \<Rightarrow> int \<Rightarrow> U32 \<Rightarrow> U32" where
  "cell_update y limit v =
     (let n = uint (v AND 255); p = uint (drop_bit 14 v);
          v1 = (if n < limit then v + 1 else v)
      in v1 + (word_of_int ((push_bit 18 y - p) * dt ! nat n) AND 0xffffff00))"

definition cnt :: "U32 \<Rightarrow> nat" where "cnt v = unat v mod 256"
definition p18 :: "U32 \<Rightarrow> nat" where "p18 v = unat v div 16384"
definition dtn :: "U32 \<Rightarrow> nat" where "dtn v = 32768 div (2 * cnt v + 3)"

definition p16 :: "U32 \<Rightarrow> nat" where "p16 v = unat v div 65536"

text \<open>
  The cells of the codec's StateMap: the count runs from 6 to the limit 90, and below the
  limit the cell keeps a distance from \<open>2 ^ 32\<close> that shrinks with the count. The
  reachable states of the StateMap are the new one with 65536 contexts and those after a
  prediction or an update with limit 90.
\<close>

definition cell_ok :: "U32 \<Rightarrow> bool" where
  "cell_ok v \<longleftrightarrow> 6 \<le> cnt v \<and> cnt v \<le> 90
     \<and> (cnt v < 90 \<longrightarrow> 2 ^ 33 \<le> (2 ^ 32 - unat v + 16500) * (2 * cnt v + 1))"

definition sm_ok :: "StateMap \<Rightarrow> bool" where
  "sm_ok s \<longleftrightarrow> sm_N s = 0x10000 \<and> length (sm_t s) = 0x10000
     \<and> 0 \<le> sm_cxt s \<and> sm_cxt s < 0x10000 \<and> (\<forall>v \<in> set (sm_t s). cell_ok v)"

inductive sm_reach :: "StateMap \<Rightarrow> bool" where
  sm_new: "sm_reach (StateMap_init 0x10000)"
| sm_p: "sm_reach s \<Longrightarrow> StateMap_p cx s = Inr (v, s') \<Longrightarrow> sm_reach s'"
| sm_update: "sm_reach s \<Longrightarrow> StateMap_update y 90 s = Inr s' \<Longrightarrow> sm_reach s'"

section \<open>The compressed stream\<close>

text \<open>
  The decoder sees its input as the \<open>L\<close> bytes of the stream followed by zeros: \<open>decode\<close>
  takes 0 for every byte past the end.
\<close>

definition stream_of :: "U8 list \<Rightarrow> nat \<Rightarrow> nat \<Rightarrow> U8" where
  "stream_of mem L i = (if i < L then mem ! i else 0)"

text \<open>The value of the four bytes of a stream from index \<open>j\<close>, first byte highest.\<close>

definition wnat :: "(nat \<Rightarrow> U8) \<Rightarrow> nat \<Rightarrow> nat" where
  "wnat st j = unat (st j) * 16777216 + unat (st (j + 1)) * 65536 + unat (st (j + 2)) * 256
               + unat (st (j + 3))"

text \<open>The value of the first \<open>i\<close> bytes of a stream, first byte highest.\<close>

fun window_prefix :: "(nat \<Rightarrow> U8) \<Rightarrow> nat \<Rightarrow> nat" where
  "window_prefix st 0 = 0"
| "window_prefix st (Suc i) = window_prefix st i * 256 + unat (st i)"

text \<open>The byte a coder's output store holds at an index, if one was written there.\<close>

definition out_at :: "Encoder \<Rightarrow> nat \<Rightarrow> U8 option" where
  "out_at e i = (case outBuf e of None \<Rightarrow> None | Some m \<Rightarrow> m i)"

text \<open>
  \<open>emitted e st\<close>: the bytes the encoder has written so far are the first bytes of the
  stream. \<open>in_range e st\<close>: the stream's window at the encoder's write index lies in the
  encoder's range.
\<close>

definition emitted :: "Encoder \<Rightarrow> (nat \<Rightarrow> U8) \<Rightarrow> bool" where
  "emitted e st \<longleftrightarrow> (\<forall>i < unat (bufIdx e). out_at e i = Some (st i))"

definition in_range :: "Encoder \<Rightarrow> (nat \<Rightarrow> U8) \<Rightarrow> bool" where
  "in_range e st \<longleftrightarrow> unat (enc_x1 e) \<le> wnat st (unat (bufIdx e))
                      \<and> wnat st (unat (bufIdx e)) \<le> unat (enc_x2 e)"

text \<open>\<open>filled e\<close>: every index below the encoder's write index has been written.\<close>

definition filled :: "Encoder \<Rightarrow> bool" where
  "filled e \<longleftrightarrow> (\<forall>i < unat (bufIdx e). out_at e i \<noteq> None)"

text \<open>
  \<open>follows st e d\<close>: the decoder \<open>d\<close> reading the stream \<open>st\<close> is where the encoder \<open>e\<close>
  was when it wrote it: same predictor and range, the decoder's window \<open>x\<close> is the
  stream's window at the encoder's write index, and the decoder's read index is four
  bytes ahead or has reached the end of its input.
\<close>

definition follows :: "(nat \<Rightarrow> U8) \<Rightarrow> Encoder \<Rightarrow> Encoder \<Rightarrow> bool" where
  "follows st e d \<longleftrightarrow>
     predictor d = predictor e \<and> enc_x1 d = enc_x1 e \<and> enc_x2 d = enc_x2 e
     \<and> unat (enc_x d) = wnat st (unat (bufIdx e))
     \<and> (\<exists>mem. inBuf d = Some mem \<and> unat (bufSize d) \<le> length mem
              \<and> st = stream_of mem (unat (bufSize d)))
     \<and> (unat (bufIdx d) = unat (bufIdx e) + 4
        \<or> (unat (bufSize d) \<le> unat (bufIdx d) \<and> unat (bufSize d) \<le> unat (bufIdx e) + 4))"

text \<open>
  A sequence of calls of \<open>encode\<close>, one per bit, that stops at the first call returning
  false; and a sequence of calls of \<open>decode\<close> that returns the given bits.
\<close>

fun encode_list :: "int list \<Rightarrow> Encoder \<Rightarrow> error + (bool \<times> Encoder)" where
  "encode_list [] e = Inr (True, e)"
| "encode_list (y # ys) e =
     (case encode y e of
        Inl er \<Rightarrow> Inl er
      | Inr (ok, e') \<Rightarrow> if \<not> ok then Inr (False, e') else encode_list ys e')"

fun decode_list :: "int list \<Rightarrow> Encoder \<Rightarrow> Encoder option" where
  "decode_list [] d = Some d"
| "decode_list (y # ys) d =
     (case decode d of
        Inl er \<Rightarrow> None
      | Inr (y', d') \<Rightarrow> if y' = y then decode_list ys d' else None)"

text \<open>
  The bits of a byte, highest first, and the bits \<open>fpaq0f2_compress\<close> encodes for a
  byte sequence before the final 0 bit: a 1 bit and the eight bits of each byte.
\<close>

definition bits_of :: "U8 \<Rightarrow> int list" where
  "bits_of c = map (\<lambda>i. uint (drop_bit i c) AND 1) (rev [0..<8])"

definition frame :: "U8 list \<Rightarrow> int list" where
  "frame s = concat (map (\<lambda>c. 1 # bits_of c) s)"

text \<open>The store after writing the bytes of a list from index \<open>i\<close> on.\<close>

fun store_list :: "(nat \<rightharpoonup> U8) \<Rightarrow> nat \<Rightarrow> U8 list \<Rightarrow> (nat \<rightharpoonup> U8)" where
  "store_list m i [] = m"
| "store_list m i (c # cs) = store_list (m(i \<mapsto> c)) (Suc i) cs"

section \<open>StateMap construction\<close>

lemma upt8: "[0..<8] = [0,1,2,3,4,5,6,7]"
  by (simp add: upt_rec numeral_eq_Suc)

lemma and_1_bit: "(i::int) AND 1 = of_bool (bit i 0)"
  by (simp add: and_one_eq bit_0 mod2_eq_if)

lemma drop_and_1_bit: "drop_bit k (i::int) AND 1 = of_bool (bit i k)"
  by (simp add: and_one_eq bit_iff_odd_drop_bit mod2_eq_if)

lemma and_2_bit: "(i::int) AND 2 = 2 * of_bool (bit i 1)"
proof -
  have b2: "bit (2::int) n \<longleftrightarrow> n = 1" for n
    using bit_exp_iff[of 1 n, where 'a = int] by simp
  show ?thesis
    by (rule bit_eqI) (auto simp: bit_and_iff b2)
qed

lemma seed_weights:
  "(i AND 1) * 2 + (i AND 2) + (drop_bit 2 i AND 1) + (drop_bit 3 i AND 1)
     + (drop_bit 4 i AND 1) + (drop_bit 5 i AND 1) + (drop_bit 6 i AND 1) + (drop_bit 7 i AND 1)
   = popcount8 (i AND 0xFF) + popcount8 (i AND 3)"
proof -
  have m: "(0xFF::int) = mask 8" "(3::int) = mask 2" by (simp_all add: mask_eq_exp_minus_1)
  show ?thesis
    unfolding popcount8_def upt8 m
    by (simp add: and_1_bit and_2_bit drop_and_1_bit bit_simps)
qed

lemma init_cell_popcount:
  "init_cell i = push_bit 28 (word_of_int (popcount8 (i AND 0xFF) + popcount8 (i AND 3) + 3)) OR 6"
  unfolding init_cell_def Let_def seed_weights[symmetric] by (simp add: add_ac)

lemma init_cell_count: "init_cell i AND 0xFF = 6"
proof -
  have m: "(0xFF::U32) = mask 8" by (simp add: mask_eq_exp_minus_1)
  have "push_bit 28 (n::U32) AND mask 8 = 0" for n
    by (simp add: bit_eq_iff bit_simps)
  then show ?thesis
    unfolding init_cell_def Let_def m by (simp add: bit.conj_disj_distrib2 flip: m)
qed

lemma sm_init_nth: "i < nat n \<Longrightarrow> sm_t (StateMap_init n) ! i = init_cell (int i)"
  by (simp add: StateMap_init_def)

lemma sm_init_len: "length (sm_t (StateMap_init n)) = nat n"
  by (simp add: StateMap_init_def)

text \<open>
  C3 (as the code has it). After construction with \<open>n\<close> contexts, cell \<open>i\<close> holds
  \<open>(w + 3) << 28 | 6\<close>, where \<open>w\<close> counts the one bits of the low 8 bits of \<open>i\<close> with
  bits 0 and 1 counted twice; the count field, the low 8 bits of the cell, is 6.
\<close>

theorem StateMap_init_cells:
  "0 \<le> i \<Longrightarrow> i < n \<Longrightarrow>
     sm_t (StateMap_init n) ! nat i
       = push_bit 28 (word_of_int (popcount8 (i AND 0xFF) + popcount8 (i AND 3) + 3)) OR 6
     \<and> sm_t (StateMap_init n) ! nat i AND 0xFF = 6"
proof -
  assume "0 \<le> i" "i < n"
  then have "sm_t (StateMap_init n) ! nat i = init_cell i"
    by (simp add: sm_init_nth)
  then show ?thesis
    using init_cell_popcount[of i] init_cell_count[of i] by (simp only:)
qed

theorem StateMap_init_cells_witness:
  "(0::int) \<le> 1 \<and> (1::int) < 0x10000 \<and> sm_t (StateMap_init 0x10000) ! nat 1 = 0x50000006"
proof -
  have h: "(0::int) \<le> 1" "(1::int) < 0x10000" by simp_all
  show ?thesis
    using StateMap_init_cells[OF h] by (simp add: popcount8_def upt8)
qed

text \<open>
  C3 as the specification states it fails at index 1: the constructor stores
  \<open>0x50000006\<close>, the plain population count gives \<open>0x40000006\<close>.
\<close>

theorem StateMap_init_popcount_counterexample:
  "sm_t (StateMap_init 0x10000) ! 1 = 0x50000006 \<and> spec_init_cell 1 = 0x40000006"
  by (simp add: StateMap_init_def init_cell_def spec_init_cell_def popcount8_def upt8)

section \<open>Steps of the coder\<close>

text \<open>The buffer operations and the shift loops leave the predictor alone.\<close>

lemma put_out_predictor: "put_out v e = Inr e' \<Longrightarrow> predictor e' = predictor e"
  by (auto simp: put_out_def split: sum.splits)

lemma next_in_predictor: "next_in e = Inr (c, e') \<Longrightarrow> predictor e' = predictor e"
  by (auto simp: next_in_def split: sum.splits)

lemma shift_out_predictor: "shift_out e = Inr (ok, e') \<Longrightarrow> predictor e' = predictor e"
proof (induction e rule: shift_out.induct)
  case (1 e)
  show ?case
  proof (cases "msb_equal e \<and> bufIdx e < bufSize e")
    case True
    then obtain e1 where p: "put_out (ucast (drop_bit 24 (enc_x2 e))) e = Inr e1"
      and r: "shift_out (shift_range e1) = Inr (ok, e')"
      using "1.prems" by (subst (asm) shift_out.simps) (auto split: sum.splits)
    from True p r have "predictor e' = predictor (shift_range e1)"
      by (intro "1.IH") auto
    then show ?thesis using put_out_predictor[OF p] by (simp add: shift_range_def)
  next
    case False
    then show ?thesis using "1.prems"
      by (subst (asm) shift_out.simps) (auto split: if_splits)
  qed
qed

lemma shift_in_predictor: "shift_in e = Inr e' \<Longrightarrow> predictor e' = predictor e"
proof (induction e rule: shift_in.induct)
  case (1 e)
  show ?case
  proof (cases "msb_equal e")
    case True
    let ?r = "if bufIdx (shift_range e) < bufSize (shift_range e) then next_in (shift_range e)
               else Inr (0, shift_range e)"
    from True obtain c e1 where p: "?r = Inr (c, e1)"
      and r: "shift_in (e1\<lparr>enc_x := push_bit 8 (enc_x e1) + word_of_int c\<rparr>) = Inr e'"
      using "1.prems" by (subst (asm) shift_in.simps) (auto split: sum.splits)
    from True p r have "predictor e' = predictor (e1\<lparr>enc_x := push_bit 8 (enc_x e1) + word_of_int c\<rparr>)"
      by (intro "1.IH"[OF True p refl]) 
    moreover have "predictor e1 = predictor e"
      using p next_in_predictor[of "shift_range e" c e1] by (auto simp: shift_range_def split: if_splits)
    ultimately show ?thesis by simp
  next
    case False
    then show ?thesis using "1.prems"
      by (subst (asm) shift_in.simps) (auto split: if_splits)
  qed
qed

lemma StateMap_update_cxt: "StateMap_update y l s = Inr s' \<Longrightarrow> sm_cxt s' = sm_cxt s"
  by (auto simp: StateMap_update_def Let_def split: if_splits)

lemma Predictor_update_key: "Predictor_update y pr = Inr pr' \<Longrightarrow> sm_cxt (pr_sm pr') = sm_cxt (pr_sm pr)"
  by (auto simp: Predictor_update_def Let_def split: sum.splits dest: StateMap_update_cxt)

lemma Predictor_p_key: "Predictor_p pr = Inr (v, pr') \<Longrightarrow>
   sm_cxt (pr_sm pr') = push_bit 8 (pr_cxt pr) OR pr_state pr ! nat (pr_cxt pr)"
  by (auto simp: Predictor_p_def StateMap_p_def split: sum.splits if_splits)

lemma encode_Inr:
  assumes "encode y e = Inr (ok, e')"
  obtains pv pr1 pr2 where
    "Predictor_p (predictor e) = Inr (pv, pr1)"
    "(word_of_int pv :: U32) \<le> 0xffff" "y = 0 \<or> y = 1"
    "xmid_of (enc_x1 e) (enc_x2 e) (word_of_int pv) \<ge> enc_x1 e"
    "xmid_of (enc_x1 e) (enc_x2 e) (word_of_int pv) < enc_x2 e"
    "Predictor_update y pr1 = Inr pr2"
    "shift_out ((if y \<noteq> 0 then e\<lparr>enc_x2 := xmid_of (enc_x1 e) (enc_x2 e) (word_of_int pv)\<rparr>
                 else e\<lparr>enc_x1 := xmid_of (enc_x1 e) (enc_x2 e) (word_of_int pv) + 1\<rparr>)\<lparr>predictor := pr2\<rparr>)
       = Inr (ok, e')"
  using assms unfolding encode_def Let_def
  by (simp split: sum.splits prod.splits if_splits)

lemma decode_Inr:
  assumes "decode e = Inr (y, e')"
  obtains pv pr1 pr2 where
    "Predictor_p (predictor e) = Inr (pv, pr1)"
    "(word_of_int pv :: U32) \<le> 0xffff"
    "xmid_of (enc_x1 e) (enc_x2 e) (word_of_int pv) \<ge> enc_x1 e"
    "xmid_of (enc_x1 e) (enc_x2 e) (word_of_int pv) < enc_x2 e"
    "y = (if enc_x e \<le> xmid_of (enc_x1 e) (enc_x2 e) (word_of_int pv) then 1 else 0)"
    "Predictor_update y pr1 = Inr pr2"
    "shift_in ((if enc_x e \<le> xmid_of (enc_x1 e) (enc_x2 e) (word_of_int pv)
                then e\<lparr>enc_x2 := xmid_of (enc_x1 e) (enc_x2 e) (word_of_int pv)\<rparr>
                else e\<lparr>enc_x1 := xmid_of (enc_x1 e) (enc_x2 e) (word_of_int pv) + 1\<rparr>)\<lparr>predictor := pr2\<rparr>)
       = Inr e'"
  using assms unfolding decode_def Let_def
  by (simp split: sum.splits prod.splits if_splits)

lemma encode_key:
  assumes "encode y e = Inr (ok, e')"
  shows "sm_cxt (pr_sm (predictor e'))
     = push_bit 8 (pr_cxt (predictor e)) OR pr_state (predictor e) ! nat (pr_cxt (predictor e))"
proof -
  from assms obtain pv pr1 pr2 e1 where p: "Predictor_p (predictor e) = Inr (pv, pr1)"
    and u: "Predictor_update y pr1 = Inr pr2"
    and s: "shift_out (e1\<lparr>predictor := pr2\<rparr>) = Inr (ok, e')"
    by (rule encode_Inr)
  from shift_out_predictor[OF s] have "predictor e' = pr2" by simp
  with Predictor_update_key[OF u] Predictor_p_key[OF p] show ?thesis by simp
qed

lemma decode_key:
  assumes "decode e = Inr (y, e')"
  shows "sm_cxt (pr_sm (predictor e'))
     = push_bit 8 (pr_cxt (predictor e)) OR pr_state (predictor e) ! nat (pr_cxt (predictor e))"
proof -
  from assms obtain pv pr1 pr2 e1 where p: "Predictor_p (predictor e) = Inr (pv, pr1)"
    and u: "Predictor_update y pr1 = Inr pr2"
    and s: "shift_in (e1\<lparr>predictor := pr2\<rparr>) = Inr e'"
    by (rule decode_Inr)
  from shift_in_predictor[OF s] have "predictor e' = pr2" by simp
  with Predictor_update_key[OF u] Predictor_p_key[OF p] show ?thesis by simp
qed

lemma init_x_predictor: "init_x k e = Inr e' \<Longrightarrow> predictor e' = predictor e"
  by (induction k arbitrary: e) (auto simp: next_in_def split: sum.splits if_splits)

lemma init_x_range: "init_x k e = Inr e' \<Longrightarrow> enc_x1 e' = enc_x1 e \<and> enc_x2 e' = enc_x2 e"
  by (induction k arbitrary: e) (auto simp: next_in_def split: sum.splits if_splits)

lemma init_x_fault: "init_x k e = Inl er \<Longrightarrow> er \<noteq> AssertFailed"
  by (induction k arbitrary: e)
     (auto simp: next_in_def read_byte_def split: sum.splits if_splits option.splits)

lemma init_x_4: "init_x 4 e = init_x (Suc (Suc (Suc (Suc 0)))) e"
  by (simp add: numeral_eq_Suc)

lemma Predictor_p_init:
  "Predictor_p Predictor_init
     = Inr (0x8000, Predictor_init\<lparr>pr_sm := (StateMap_init 0x10000)\<lparr>sm_cxt := 0x66\<rparr>\<rparr>)"
  by (simp add: Predictor_p_def Predictor_init_def StateMap_p_def sm_init_nth init_cell_def)
     (simp add: StateMap_init_def)

lemma Predictor_update_first:
  "y = 0 \<or> y = 1 \<Longrightarrow>
     \<exists>pr2. Predictor_update y (Predictor_init\<lparr>pr_sm := (StateMap_init 0x10000)\<lparr>sm_cxt := 0x66\<rparr>\<rparr>)
             = Inr pr2"
  by (auto simp: Predictor_update_def StateMap_update_def Let_def StateMap_init_def)

lemma first_encode:
  assumes "predictor e = Predictor_init" "enc_x1 e = 0" "enc_x2 e = 0xffffffff" "y = 0 \<or> y = 1"
  shows "\<exists>e'. encode y e = Inr (True, e')"
  using assms Predictor_update_first[of y]
  by (auto simp: encode_def Predictor_p_init xmid_of_def shift_out.simps msb_equal_def)

lemma first_decode:
  assumes "predictor e = Predictor_init" "enc_x1 e = 0" "enc_x2 e = 0xffffffff"
  shows "\<exists>y e'. decode e = Inr (y, e')"
  using assms Predictor_update_first[of 0] Predictor_update_first[of 1]
  by (auto simp: decode_def Predictor_p_init xmid_of_def shift_in.simps msb_equal_def)

section \<open>Predictor construction\<close>

text \<open>
  C9. The constructor sets \<open>cxt\<close> to 0 and every entry of \<open>state\<close> to \<open>0x66\<close>, so the
  prediction on a new predictor looks up context \<open>0x66\<close>. Both constructors of the
  coder build such a predictor, and the first \<open>encode\<close> or \<open>decode\<close> on the new coder
  leaves \<open>0x66\<close> as the context of the last prediction.
\<close>

theorem Predictor_init_first_key:
  "pr_cxt Predictor_init = 0
   \<and> pr_state Predictor_init = replicate 256 0x66
   \<and> (\<exists>v pr. Predictor_p Predictor_init = Inr (v, pr) \<and> sm_cxt (pr_sm pr) = 0x66)
   \<and> (\<exists>e. Encoder_init_compress COMPRESS out sz = Inr e \<and> predictor e = Predictor_init
         \<and> (\<exists>e'. encode 1 e = Inr (True, e') \<and> sm_cxt (pr_sm (predictor e')) = 0x66)
         \<and> (\<exists>e'. encode 0 e = Inr (True, e') \<and> sm_cxt (pr_sm (predictor e')) = 0x66))
   \<and> (case Encoder_init_decompress DECOMPRESS inp sz of
         Inl er \<Rightarrow> er \<noteq> AssertFailed
       | Inr e \<Rightarrow> predictor e = Predictor_init
           \<and> (\<exists>y e'. decode e = Inr (y, e') \<and> sm_cxt (pr_sm (predictor e')) = 0x66))"
proof (intro conjI)
  show "pr_cxt Predictor_init = 0" by (simp add: Predictor_init_def)
  show "pr_state Predictor_init = replicate 256 0x66" by (simp add: Predictor_init_def)
  show "\<exists>v pr. Predictor_p Predictor_init = Inr (v, pr) \<and> sm_cxt (pr_sm pr) = 0x66"
    by (simp add: Predictor_p_init)
  have k: "push_bit 8 (pr_cxt Predictor_init) OR pr_state Predictor_init ! nat (pr_cxt Predictor_init)
      = 0x66"
    by (simp add: Predictor_init_def)
  define e0 where "e0 = \<lparr>predictor = Predictor_init, mode = COMPRESS, inBuf = None, outBuf = out,
      bufIdx = 0, bufSize = sz, enc_x1 = 0, enc_x2 = 0xffffffff, enc_x = 0\<rparr>"
  have e0: "predictor e0 = Predictor_init" "enc_x1 e0 = 0" "enc_x2 e0 = 0xffffffff"
    by (simp_all add: e0_def)
  have "\<exists>e'. encode y e0 = Inr (True, e') \<and> sm_cxt (pr_sm (predictor e')) = 0x66"
    if "y = 0 \<or> y = 1" for y
  proof -
    from first_encode[OF e0 that] obtain e' where e': "encode y e0 = Inr (True, e')" ..
    from encode_key[OF e'] show ?thesis using e' by (simp add: e0 k)
  qed
  from this[of 0] this[of 1]
  show "\<exists>e. Encoder_init_compress COMPRESS out sz = Inr e \<and> predictor e = Predictor_init
         \<and> (\<exists>e'. encode 1 e = Inr (True, e') \<and> sm_cxt (pr_sm (predictor e')) = 0x66)
         \<and> (\<exists>e'. encode 0 e = Inr (True, e') \<and> sm_cxt (pr_sm (predictor e')) = 0x66)"
    by (simp add: Encoder_init_compress_def e0_def)
  show "case Encoder_init_decompress DECOMPRESS inp sz of
         Inl er \<Rightarrow> er \<noteq> AssertFailed
       | Inr e \<Rightarrow> predictor e = Predictor_init
           \<and> (\<exists>y e'. decode e = Inr (y, e') \<and> sm_cxt (pr_sm (predictor e')) = 0x66)"
  proof (cases "Encoder_init_decompress DECOMPRESS inp sz")
    case (Inl er)
    then show ?thesis
      using init_x_fault[of 4] by (auto simp: Encoder_init_decompress_def Let_def)
  next
    case (Inr e)
    then have p: "predictor e = Predictor_init" and r: "enc_x1 e = 0" "enc_x2 e = 0xffffffff"
      using init_x_predictor[of 4 _ e] init_x_range[of 4 _ e]
      by (auto simp: Encoder_init_decompress_def Let_def)
    from first_decode[OF p r] obtain y e' where d: "decode e = Inr (y, e')" by blast
    from decode_key[OF d] show ?thesis using Inr d by (simp add: p k)
  qed
qed

section \<open>Decoder construction\<close>

text \<open>
  C4 fails on the code. The constructor's test is \<open>bufIdx <= bufSize\<close>, so with
  \<open>len = 0\<close> its first iteration reads \<open>inBuf[0]\<close>: outside an empty buffer, through the
  null pointer when there is none, and into \<open>x\<close> when the caller's memory goes on
  past \<open>len\<close>.
\<close>

theorem decoder_init_reads_past_end:
  "Encoder_init_decompress DECOMPRESS (Some []) 0 = Inl OutOfBounds
   \<and> Encoder_init_decompress DECOMPRESS None 0 = Inl NullDeref
   \<and> (case Encoder_init_decompress DECOMPRESS (Some [0xAB]) 0 of
         Inl er \<Rightarrow> False
       | Inr e \<Rightarrow> enc_x e = 0xAB000000 \<and> bufIdx e = 1)"
  by (simp add: Encoder_init_decompress_def next_in_def read_byte_def init_x_4)

section \<open>The interval split\<close>

lemma unat_and_ffff: "unat ((w::U32) AND 0xffff) = unat w mod 65536"
proof -
  have "(0xffff::U32) = mask 16" by (simp add: mask_eq_exp_minus_1)
  then have "w AND 0xffff = take_bit 16 w" by (simp only: take_bit_eq_mask)
  then have "unat (w AND 0xffff) = take_bit 16 (unat w)" by (simp only: unsigned_take_bit_eq)
  then show ?thesis by (simp add: take_bit_eq_mod)
qed

lemma unat_drop16: "unat (drop_bit 16 (w::U32)) = unat w div 65536"
  by (simp add: unat_drop_bit_eq) (simp add: drop_bit_eq_div)

lemma p_bound: "(p::U32) \<le> 0xffff \<Longrightarrow> unat p \<le> 65535"
  by (simp add: word_le_nat_alt)

lemma hi_prod_bound:
  assumes "(p::U32) \<le> 0xffff"
  shows "unat (drop_bit 16 (w::U32)) * unat p \<le> 65535 * 65535"
proof -
  have "unat w < 2 ^ 32" using unsigned_less[of w] by simp
  then have "unat w div 65536 \<le> 65535" by simp
  then show ?thesis
    unfolding unat_drop16 using p_bound[OF assms] by (rule mult_le_mono)
qed

lemma lo_prod_bound:
  assumes "(p::U32) \<le> 0xffff"
  shows "unat ((w::U32) AND 0xffff) * unat p \<le> 65535 * 65535"
proof -
  have "unat w mod 65536 \<le> 65535" by simp
  then show ?thesis
    unfolding unat_and_ffff using p_bound[OF assms] by (rule mult_le_mono)
qed

lemma split_div: "((a::nat) * 65536 + b) * p div 65536 = a * p + b * p div 65536"
proof -
  have "(a * 65536 + b) * p = b * p + (a * p) * 65536" by (simp add: algebra_simps)
  then show ?thesis by (simp only: div_mult_self1[of 65536 "b*p" "a*p"])
qed

lemma unat_hi_term:
  assumes "(p::U32) \<le> 0xffff"
  shows "unat (drop_bit 16 (w::U32) * p) = (unat w div 65536) * unat p"
proof -
  have "unat (drop_bit 16 w) * unat p < 2 ^ 32"
    using hi_prod_bound[OF assms, of w] by simp
  then show ?thesis by (simp add: unat_mult_lem[THEN iffD1] unat_drop16)
qed

lemma unat_lo_term:
  assumes "(p::U32) \<le> 0xffff"
  shows "unat (drop_bit 16 (((w::U32) AND 0xffff) * p)) = (unat w mod 65536) * unat p div 65536"
proof -
  have "unat (w AND 0xffff) * unat p < 2 ^ 32"
    using lo_prod_bound[OF assms, of w] by simp
  then have "unat ((w AND 0xffff) * p) = (unat w mod 65536) * unat p"
    by (simp add: unat_mult_lem[THEN iffD1] unat_and_ffff)
  then show ?thesis by (simp add: unat_drop16)
qed

lemma unat_split_sum:
  assumes "(p::U32) \<le> 0xffff"
  shows "unat (drop_bit 16 (w::U32) * p + drop_bit 16 ((w AND 0xffff) * p)) = unat w * unat p div 65536"
proof -
  let ?a = "unat w div 65536" and ?b = "unat w mod 65536"
  have hi: "?a * unat p \<le> 65535 * 65535"
    using hi_prod_bound[OF assms, of w] by (simp add: unat_drop16)
  have lo: "?b * unat p \<le> 65535 * 65535"
    using lo_prod_bound[OF assms, of w] by (simp add: unat_and_ffff)
  then have lo': "?b * unat p div 65536 \<le> 65535" by simp
  have "unat (drop_bit 16 w * p) + unat (drop_bit 16 ((w AND 0xffff) * p)) < 2 ^ 32"
    using hi lo' by (simp add: unat_hi_term[OF assms] unat_lo_term[OF assms])
  then have "unat (drop_bit 16 w * p + drop_bit 16 ((w AND 0xffff) * p))
      = ?a * unat p + ?b * unat p div 65536"
    by (simp add: unat_add_lem[THEN iffD1] unat_hi_term[OF assms] unat_lo_term[OF assms])
  also have "\<dots> = (?a * 65536 + ?b) * unat p div 65536"
    by (simp only: split_div)
  also have "?a * 65536 + ?b = unat w" by simp
  finally show ?thesis .
qed

text \<open>
  C6. For \<open>p\<close> up to 65535 the split point is \<open>x1\<close> plus the floor of
  \<open>width * p / 65536\<close>, modulo \<open>2 ^ 32\<close>, where \<open>width = x2 - x1\<close>; neither partial
  product exceeds \<open>2 ^ 32 - 1\<close>, and neither does the sum of the two terms added to
  \<open>x1\<close>.
\<close>

theorem xmid_split_exact:
  "p \<le> 0xffff \<Longrightarrow>
     xmid_of x1 x2 p = x1 + word_of_nat (unat (x2 - x1) * unat p div 65536)
   \<and> unat (drop_bit 16 (x2 - x1)) * unat p \<le> 2 ^ 32 - 1
   \<and> unat ((x2 - x1) AND 0xffff) * unat p \<le> 2 ^ 32 - 1
   \<and> unat (drop_bit 16 (x2 - x1)) * unat p + unat ((x2 - x1) AND 0xffff) * unat p div 65536
       \<le> 2 ^ 32 - 1"
proof (intro conjI)
  assume p: "p \<le> 0xffff"
  let ?w = "x2 - x1"
  have "drop_bit 16 ?w * p + drop_bit 16 ((?w AND 0xffff) * p)
      = word_of_nat (unat (drop_bit 16 ?w * p + drop_bit 16 ((?w AND 0xffff) * p)))"
    by simp
  also have "\<dots> = word_of_nat (unat ?w * unat p div 65536)"
    by (simp only: unat_split_sum[OF p])
  finally show "xmid_of x1 x2 p = x1 + word_of_nat (unat ?w * unat p div 65536)"
    by (simp add: xmid_of_def add.assoc)
  show "unat (drop_bit 16 ?w) * unat p \<le> 2 ^ 32 - 1"
    using hi_prod_bound[OF p, of ?w] by simp
  show "unat (?w AND 0xffff) * unat p \<le> 2 ^ 32 - 1"
    using lo_prod_bound[OF p, of ?w] by simp
  have "unat (?w AND 0xffff) * unat p div 65536 \<le> 65535"
    using lo_prod_bound[OF p, of ?w] by simp
  then show "unat (drop_bit 16 ?w) * unat p + unat (?w AND 0xffff) * unat p div 65536 \<le> 2 ^ 32 - 1"
    using hi_prod_bound[OF p, of ?w] by simp
qed

theorem xmid_split_exact_witness:
  "(0x8000::U32) \<le> 0xffff \<and> xmid_of 0 0xffffffff 0x8000 = 0x7fffffff"
proof -
  have h: "(0x8000::U32) \<le> 0xffff" by simp
  show ?thesis
    using h xmid_split_exact[OF h, of 0 "0xffffffff"] by simp
qed

section \<open>StateMap update\<close>

lemma masked_low: "((X::U32) AND 0xffffff00) AND 0xff = 0"
proof -
  have "(0xffffff00::U32) = NOT (mask 8)" "(0xff::U32) = mask 8" by (simp_all add: mask_eq_exp_minus_1)
  then show ?thesis by (simp add: bit_eq_iff bit_simps)
qed

lemma unat_low8: "unat ((a::U32) AND 0xff) = unat a mod 256"
proof -
  have "(0xff::U32) = mask 8" by (simp add: mask_eq_exp_minus_1)
  then have "a AND 0xff = take_bit 8 a" by (simp only: take_bit_eq_mask)
  then have "unat (a AND 0xff) = take_bit 8 (unat a)" by (simp only: unsigned_take_bit_eq)
  then show ?thesis by (simp add: take_bit_eq_mod)
qed

lemma add_masked_low: "((a::U32) + (X AND 0xffffff00)) AND 0xff = a AND 0xff"
proof -
  have z: "unat (X AND 0xffffff00) mod 256 = 0"
    using masked_low[of X] by (simp flip: unat_low8)
  have "unat ((a + (X AND 0xffffff00)) AND 0xff) = (unat a + unat (X AND 0xffffff00)) mod 2 ^ 32 mod 256"
    by (simp add: unat_low8 unat_word_ariths)
  also have "\<dots> = (unat a + unat (X AND 0xffffff00)) mod 256"
    by (simp add: mod_mod_cancel)
  also have "\<dots> = unat a mod 256"
    using z by (metis add.right_neutral mod_add_right_eq)
  finally show ?thesis by (simp add: word_unat_eq_iff unat_low8)
qed

lemma inc_low:
  assumes "unat ((a::U32) AND 0xff) < 255"
  shows "(a + 1) AND 0xff = (a AND 0xff) + 1"
proof -
  from assms have l: "unat a mod 256 < 255" by (simp add: unat_low8)
  have "unat ((a + 1) AND 0xff) = (unat a + 1) mod 2 ^ 32 mod 256"
    by (simp add: unat_low8 unat_word_ariths)
  also have "\<dots> = (unat a + 1) mod 256"
    by (simp add: mod_mod_cancel)
  also have "\<dots> = unat a mod 256 + 1"
    using l by (simp add: mod_Suc)
  also have "\<dots> = unat ((a AND 0xff) + 1)"
    using l by (simp add: unat_word_ariths unat_low8)
  finally show ?thesis by (simp only: word_unat_eq_iff)
qed

lemma delta_word:
  "(word_of_int ((push_bit 18 y - uint p) * d) :: U32)
     = (push_bit 18 (word_of_int y) - p) * word_of_int d"
  by (simp add: push_bit_eq_mult wi_hom_syms)


lemma dt_nth: "i < 256 \<Longrightarrow> dt ! i = 32768 div (int i + int i + 3)"
  by (simp add: dt_def dt_fill_def)

lemma dt_length: "length dt = 256"
  by (simp add: dt_def dt_fill_def)

lemma dt_fill_dt: "dt_fill dt = dt"
  by (simp add: dt_fill_def dt_nth)

text \<open>
  C5. For a valid context, a bit \<open>y\<close> and a limit from 1 to 254, \<open>update\<close> stores in
  the cell of the last prediction the value of the specification's formula, computed in
  32-bit wrap-around arithmetic from the prior cell; the low 8 bits of the new cell are the
  old count plus the conditional increment; no other cell changes.
\<close>

theorem StateMap_update_cell:
  assumes "0 \<le> sm_cxt s" "sm_cxt s < sm_N s" "nat (sm_cxt s) < length (sm_t s)"
    and "y = 0 \<or> y = 1" "1 \<le> limit" "limit \<le> 254"
  shows "\<exists>s'. StateMap_update y limit s = Inr s'
      \<and> sm_t s' ! nat (sm_cxt s) = spec_update_cell (sm_t s ! nat (sm_cxt s)) y limit
      \<and> sm_t s' ! nat (sm_cxt s) AND 0xFF
          = (sm_t s ! nat (sm_cxt s) AND 0xFF)
            + (if uint (sm_t s ! nat (sm_cxt s) AND 0xFF) < limit then 1 else 0)
      \<and> sm_t s' = (sm_t s)[nat (sm_cxt s) := sm_t s' ! nat (sm_cxt s)]"
proof -
  let ?c = "nat (sm_cxt s)"
  let ?v = "sm_t s ! ?c"
  let ?n = "uint (?v AND 255)"
  let ?M = "(word_of_int ((push_bit 18 y - uint (drop_bit 14 ?v)) * dt ! nat ?n) :: U32) AND 0xffffff00"
  let ?inc = "if ?n < limit then 1 else 0 :: U32"
  define s' where "s' = s\<lparr>sm_t := (sm_t s)[?c := ?v + ?inc + ?M]\<rparr>"
  have upd: "StateMap_update y limit s = Inr s'"
    using assms by (auto simp: StateMap_update_def Let_def s'_def)
  have cell: "sm_t s' ! ?c = ?v + ?inc + ?M"
    using assms(3) by (simp add: s'_def)
  have n: "nat ?n = unat (?v AND 255)" by simp
  have spec: "?v + ?inc + ?M = spec_update_cell ?v y limit"
    unfolding spec_update_cell_def Let_def delta_word n by simp
  have low: "(?v + ?inc + ?M) AND 0xFF = (?v AND 0xFF) + ?inc"
  proof (cases "?n < limit")
    case True
    with assms(6) have "?n < 255" by simp
    then have "unat (?v AND 0xff) < 255" by (simp only: uint_nat)
    from inc_low[OF this] True show ?thesis by (simp add: add_masked_low)
  next
    case False
    then show ?thesis by (simp add: add_masked_low)
  qed
  have rest: "sm_t s' = (sm_t s)[?c := sm_t s' ! ?c]"
    by (simp only: cell) (simp add: s'_def)
  show ?thesis
    using upd cell spec low rest by (intro exI[of _ s']) (simp only: simp_thms)
qed


theorem StateMap_update_cell_witness:
  "nat (sm_cxt \<lparr>sm_N = 1, sm_cxt = 0, sm_t = [0x80000006]\<rparr>)
     < length (sm_t \<lparr>sm_N = 1, sm_cxt = 0, sm_t = [0x80000006]\<rparr>)
   \<and> (\<exists>s'. StateMap_update 1 90 \<lparr>sm_N = 1, sm_cxt = 0, sm_t = [0x80000006]\<rparr> = Inr s'
          \<and> sm_t s' ! 0 = 0x91100007 \<and> sm_t s' ! 0 AND 0xFF = 7)"
proof -
  let ?s = "\<lparr>sm_N = 1, sm_cxt = 0, sm_t = [0x80000006]\<rparr>"
  have h: "0 \<le> sm_cxt ?s" "sm_cxt ?s < sm_N ?s" "nat (sm_cxt ?s) < length (sm_t ?s)"
    "(1::int) = 0 \<or> (1::int) = 1" "(1::int) \<le> 90" "(90::int) \<le> 254"
    by simp_all
  have "spec_update_cell 0x80000006 1 90 = 0x91100007"
    by (simp add: spec_update_cell_def dt_nth)
  then show ?thesis
    using StateMap_update_cell[OF h] by auto
qed

section \<open>The interval\<close>

lemma xmid_unat:
  assumes "x1 < x2" "p \<le> 0xffff"
  shows "unat (xmid_of x1 x2 p) = unat x1 + unat (x2 - x1) * unat p div 65536"
    and "unat (x2 - x1) * unat p div 65536 < unat (x2 - x1)"
proof -
  let ?w = "unat (x2 - x1)" and ?q = "unat (x2 - x1) * unat p div 65536"
  from assms(1) have "x1 \<le> x2" by simp
  with assms(1) have w: "?w = unat x2 - unat x1" "unat x1 < unat x2"
    by (simp_all add: unat_sub word_less_nat_alt)
  have "?w * unat p \<le> ?w * 65535" using p_bound[OF assms(2)] by simp
  then have "?q \<le> ?w * 65535 div 65536" by (rule div_le_mono)
  also have "\<dots> < ?w" using w by simp
  finally show q: "?q < ?w" .
  have x2: "unat x2 < 2 ^ 32" using unsigned_less[of x2] by simp
  have s: "unat (drop_bit 16 (x2 - x1) * p + drop_bit 16 (((x2 - x1) AND 0xffff) * p)) = ?q"
    by (rule unat_split_sum[OF assms(2)])
  have "unat x1 + ?q < 2 ^ 32" using q w x2 by simp
  then have "unat (x1 + (drop_bit 16 (x2 - x1) * p + drop_bit 16 (((x2 - x1) AND 0xffff) * p)))
      = unat x1 + ?q"
    by (simp add: unat_add_lem[THEN iffD1] s)
  then show "unat (xmid_of x1 x2 p) = unat x1 + ?q"
    by (simp add: xmid_of_def add.assoc)
qed

lemma xmid_in_range:
  assumes "x1 < x2" "p \<le> 0xffff"
  shows "x1 \<le> xmid_of x1 x2 p \<and> xmid_of x1 x2 p < x2"
proof -
  from assms(1) have "x1 \<le> x2" by simp
  with assms(1) have w: "unat (x2 - x1) = unat x2 - unat x1" "unat x1 < unat x2"
    by (simp_all add: unat_sub word_less_nat_alt)
  show ?thesis
    using xmid_unat[OF assms] w by (simp add: word_le_nat_alt word_less_nat_alt)
qed

lemma succ_le: "(a::U32) < b \<Longrightarrow> a + 1 \<le> b"
  by (simp add: inc_le)

lemma shift_keeps_order:
  assumes "(a XOR b) AND 0xff000000 = (0::U32)" "a \<le> b"
  shows "push_bit 8 a < push_bit 8 b + 255"
proof -
  from assms(1) have h: "unat a div 2 ^ 24 = unat b div 2 ^ 24" by (simp add: msb_iff_unat)
  have ab: "unat a \<le> unat b" using assms(2) by (simp add: word_le_nat_alt)
  have a: "unat a < 2 ^ 32" and b: "unat b < 2 ^ 32"
    using unsigned_less[of a] unsigned_less[of b] by simp_all
  have "unat a mod 2 ^ 24 \<le> unat b mod 2 ^ 24"
    using h ab by (metis add_le_cancel_left mult_div_mod_eq)
  moreover have "(unat a * 256) mod 2 ^ 32 = (unat a mod 2 ^ 24) * 256"
    using mult_mod_left[of "unat a" "2^24" 256] by simp
  moreover have "(unat b * 256 + 255) mod 2 ^ 32 = (unat b mod 2 ^ 24) * 256 + 255"
  proof -
    define d m where "d = unat b div 2 ^ 24" and "m = unat b mod 2 ^ 24"
    have "unat b = d * 2 ^ 24 + m" by (simp add: d_def m_def)
    then have "unat b * 256 + 255 = d * 2 ^ 32 + (m * 256 + 255)" by simp
    then have "(unat b * 256 + 255) mod 2 ^ 32 = (m * 256 + 255) mod 2 ^ 32"
      by (simp only: mod_mult_self3)
    moreover have "m * 256 + 255 < 2 ^ 32"
      using mod_less_divisor[of "2 ^ 24" "unat b"] by (simp add: m_def)
    ultimately show ?thesis by (simp add: m_def)
  qed
  ultimately show ?thesis
    by (simp add: word_less_nat_alt unat_push8 unat_push8_255)
qed

lemma Predictor_ok_init: "Predictor_ok Predictor_init"
  by (simp add: Predictor_ok_def Predictor_init_def StateMap_init_def)

lemma key_of_range:
  assumes "Predictor_ok pr"
  shows "0 \<le> key_of pr \<and> key_of pr < 0x10000"
proof -
  from assms have c: "0 \<le> pr_cxt pr" "pr_cxt pr < 256" and l: "length (pr_state pr) = 256"
    and v: "\<forall>v \<in> set (pr_state pr). 0 \<le> v \<and> v < 256"
    by (simp_all add: Predictor_ok_def)
  from c l have "pr_state pr ! nat (pr_cxt pr) \<in> set (pr_state pr)" by simp
  with v have s: "0 \<le> pr_state pr ! nat (pr_cxt pr)" "pr_state pr ! nat (pr_cxt pr) < 256" by auto
  have p: "0 \<le> push_bit 8 (pr_cxt pr)" "push_bit 8 (pr_cxt pr) < 2 ^ 16"
    using c by (simp_all add: push_bit_eq_mult)
  have "push_bit 8 (pr_cxt pr) OR pr_state pr ! nat (pr_cxt pr) < 2 ^ 16"
    using p s by (intro OR_upper) simp_all
  then show ?thesis using p s by (simp add: key_of_def)
qed

lemma drop16_le: "drop_bit 16 (w::U32) \<le> 0xffff"
proof -
  have "unat w < 2 ^ 32" using unsigned_less[of w] by simp
  then have "unat w div 65536 \<le> 65535" by simp
  then show ?thesis by (simp add: word_le_nat_alt unat_drop16)
qed

lemma Predictor_p_ok:
  assumes "Predictor_ok pr"
  shows "\<exists>pv. Predictor_p pr = Inr (pv, pr\<lparr>pr_sm := (pr_sm pr)\<lparr>sm_cxt := key_of pr\<rparr>\<rparr>)
           \<and> (word_of_int pv :: U32) \<le> 0xffff"
  using assms key_of_range[OF assms]
  by (simp add: Predictor_p_def StateMap_p_def Predictor_ok_def drop16_le flip: key_of_def)

lemma StateMap_update_ok:
  assumes "0 \<le> sm_cxt s" "sm_cxt s < sm_N s" "y = 0 \<or> y = 1"
  shows "\<exists>s'. StateMap_update y 90 s = Inr s' \<and> sm_N s' = sm_N s \<and> sm_cxt s' = sm_cxt s
           \<and> length (sm_t s') = length (sm_t s)"
  using assms by (auto simp: StateMap_update_def Let_def)

lemma Predictor_update_ok:
  assumes "Predictor_ok pr" "0 \<le> sm_cxt (pr_sm pr)" "sm_cxt (pr_sm pr) < 0x10000" "y = 0 \<or> y = 1"
  shows "\<exists>pr'. Predictor_update y pr = Inr pr' \<and> Predictor_ok pr'"
proof -
  from assms have n: "sm_cxt (pr_sm pr) < sm_N (pr_sm pr)" by (simp add: Predictor_ok_def)
  from StateMap_update_ok[OF assms(2) n assms(4)] obtain s' where
    s': "StateMap_update y 90 (pr_sm pr) = Inr s'" "sm_N s' = sm_N (pr_sm pr)"
        "length (sm_t s') = length (sm_t (pr_sm pr))" by blast
  let ?c = "nat (pr_cxt pr)"
  let ?st = "(pr_state pr ! ?c + pr_state pr ! ?c + y) AND 255"
  let ?cx = "pr_cxt pr + pr_cxt pr + y"
  let ?pr' = "pr\<lparr>pr_sm := s', pr_state := (pr_state pr)[?c := ?st],
                      pr_cxt := (if ?cx \<ge> 256 then 0 else ?cx)\<rparr>"
  have u: "Predictor_update y pr = Inr ?pr'"
    by (simp add: Predictor_update_def s' Let_def)
  have st: "0 \<le> ?st \<and> ?st < 256"
    using AND_upper2'[of 255 "pr_state pr ! ?c + pr_state pr ! ?c + y"] by simp
  have "\<forall>v \<in> set ((pr_state pr)[?c := ?st]). 0 \<le> v \<and> v < 256"
    using assms(1) st by (auto simp: Predictor_ok_def dest!: set_update_subset_insert[THEN subsetD])
  then have "Predictor_ok ?pr'"
    using assms(1,4) s' by (auto simp: Predictor_ok_def)
  with u show ?thesis by blast
qed

lemma writes_below_refl: "writes_below cap b b"
  by (simp add: writes_below_def split: option.splits)

lemma writes_below_trans:
  "writes_below cap a b \<Longrightarrow> writes_below cap b c \<Longrightarrow> writes_below cap a c"
  by (auto simp: writes_below_def split: option.splits)

lemma writes_below_mono: "writes_below cap a b \<Longrightarrow> cap \<le> cap' \<Longrightarrow> writes_below cap' a b"
  by (auto simp: writes_below_def split: option.splits)

lemma put_out_props:
  assumes "put_out v e = Inr e'" "bufIdx e < bufSize e"
  shows "predictor e' = predictor e \<and> bufSize e' = bufSize e \<and> mode e' = mode e
       \<and> inBuf e' = inBuf e \<and> enc_x e' = enc_x e
       \<and> writes_below (unat (bufSize e)) (outBuf e) (outBuf e')"
  using assms
  by (auto simp: put_out_def write_byte_def writes_below_def word_less_nat_alt
           split: sum.splits option.splits)

lemma put_out_fault: "put_out v e = Inl er \<Longrightarrow> er = NullDeref \<and> outBuf e = None"
  by (auto simp: put_out_def write_byte_def split: sum.splits option.splits)

lemma shift_out_props:
  "shift_out e = Inr (ok, e') \<Longrightarrow>
     predictor e' = predictor e \<and> bufSize e' = bufSize e \<and> mode e' = mode e
     \<and> inBuf e' = inBuf e \<and> enc_x e' = enc_x e
     \<and> writes_below (unat (bufSize e)) (outBuf e) (outBuf e')
     \<and> (enc_x1 e \<le> enc_x2 e \<longrightarrow> enc_x1 e' \<le> enc_x2 e')
     \<and> (ok \<longrightarrow> \<not> msb_equal e')"
proof (induction e rule: shift_out.induct)
  case (1 e)
  show ?case
  proof (cases "msb_equal e \<and> bufIdx e < bufSize e")
    case True
    then obtain e1 where p: "put_out (ucast (drop_bit 24 (enc_x2 e))) e = Inr e1"
      and r: "shift_out (shift_range e1) = Inr (ok, e')"
      using "1.prems" by (subst (asm) shift_out.simps) (auto split: sum.splits)
    from True p r have ih: "predictor e' = predictor (shift_range e1) \<and> bufSize e' = bufSize (shift_range e1)
      \<and> mode e' = mode (shift_range e1) \<and> inBuf e' = inBuf (shift_range e1)
      \<and> enc_x e' = enc_x (shift_range e1)
      \<and> writes_below (unat (bufSize (shift_range e1))) (outBuf (shift_range e1)) (outBuf e')
      \<and> (enc_x1 (shift_range e1) \<le> enc_x2 (shift_range e1) \<longrightarrow> enc_x1 e' \<le> enc_x2 e')
      \<and> (ok \<longrightarrow> \<not> msb_equal e')"
      by (intro "1.IH") auto
    from True have pp: "bufIdx e < bufSize e" by simp
    note pr = put_out_props[OF p pp] put_out_range[OF p]
    have ord: "enc_x1 e \<le> enc_x2 e \<Longrightarrow> enc_x1 (shift_range e1) \<le> enc_x2 (shift_range e1)"
      using True shift_keeps_order[of "enc_x1 e" "enc_x2 e"] pr
      by (simp add: shift_range_def msb_equal_def)
    show ?thesis
      using ih pr ord writes_below_trans[of "unat (bufSize e)" "outBuf e" "outBuf e1" "outBuf e'"]
      by (simp add: shift_range_def)
  next
    case False
    then show ?thesis using "1.prems"
      by (subst (asm) shift_out.simps) (auto simp: writes_below_refl split: if_splits)
  qed
qed

lemma shift_out_fault: "shift_out e = Inl er \<Longrightarrow> er = NullDeref"
proof (induction e rule: shift_out.induct)
  case (1 e)
  show ?case
  proof (cases "msb_equal e \<and> bufIdx e < bufSize e")
    case True
    show ?thesis
    proof (cases "put_out (ucast (drop_bit 24 (enc_x2 e))) e")
      case (Inl a)
      with True "1.prems" put_out_fault[OF Inl] show ?thesis
        by (subst (asm) shift_out.simps) simp
    next
      case (Inr e1)
      with True "1.prems" have "shift_out (shift_range e1) = Inl er"
        by (subst (asm) shift_out.simps) simp
      with True Inr show ?thesis by (intro "1.IH") auto
    qed
  next
    case False
    then show ?thesis using "1.prems"
      by (subst (asm) shift_out.simps) (auto split: if_splits)
  qed
qed

lemma next_in_props:
  "next_in e = Inr (c, e') \<Longrightarrow>
     predictor e' = predictor e \<and> bufSize e' = bufSize e \<and> mode e' = mode e
     \<and> inBuf e' = inBuf e \<and> outBuf e' = outBuf e \<and> enc_x e' = enc_x e \<and> 0 \<le> c \<and> c < 256"
  using uint_lt2p[where 'a=8]
  by (auto simp: next_in_def split: sum.splits)

lemma next_in_fault: "next_in e = Inl er \<Longrightarrow> er \<noteq> AssertFailed"
  by (auto simp: next_in_def read_byte_def split: sum.splits option.splits if_splits)

lemma shift_in_props:
  "shift_in e = Inr e' \<Longrightarrow>
     predictor e' = predictor e \<and> bufSize e' = bufSize e \<and> mode e' = mode e
     \<and> inBuf e' = inBuf e \<and> outBuf e' = outBuf e
     \<and> (enc_x1 e \<le> enc_x2 e \<longrightarrow> enc_x1 e' \<le> enc_x2 e')
     \<and> \<not> msb_equal e'"
proof (induction e rule: shift_in.induct)
  case (1 e)
  show ?case
  proof (cases "msb_equal e")
    case True
    let ?r = "if bufIdx (shift_range e) < bufSize (shift_range e) then next_in (shift_range e)
               else Inr (0, shift_range e)"
    let ?f = "\<lambda>c e1. e1\<lparr>enc_x := push_bit 8 (enc_x e1) + word_of_int c\<rparr>"
    from True obtain c e1 where p: "?r = Inr (c, e1)"
      and r: "shift_in (?f c e1) = Inr e'"
      using "1.prems" by (subst (asm) shift_in.simps) (auto split: sum.splits)
    have ih: "predictor e' = predictor (?f c e1) \<and> bufSize e' = bufSize (?f c e1)
      \<and> mode e' = mode (?f c e1) \<and> inBuf e' = inBuf (?f c e1) \<and> outBuf e' = outBuf (?f c e1)
      \<and> (enc_x1 (?f c e1) \<le> enc_x2 (?f c e1) \<longrightarrow> enc_x1 e' \<le> enc_x2 e')
      \<and> \<not> msb_equal e'"
      by (rule "1.IH"[OF True p refl r])
    have e1: "predictor e1 = predictor e \<and> bufSize e1 = bufSize e \<and> mode e1 = mode e
      \<and> inBuf e1 = inBuf e \<and> outBuf e1 = outBuf e
      \<and> enc_x1 e1 = push_bit 8 (enc_x1 e) \<and> enc_x2 e1 = push_bit 8 (enc_x2 e) + 255"
      using p next_in_props[of "shift_range e" c e1] next_in_range[of "shift_range e" c e1]
      by (auto simp: shift_range_def split: if_splits)
    have ord: "enc_x1 e \<le> enc_x2 e \<Longrightarrow> enc_x1 e1 \<le> enc_x2 e1"
      using True shift_keeps_order[of "enc_x1 e" "enc_x2 e"] e1
      by (simp add: msb_equal_def)
    show ?thesis using ih e1 ord by simp
  next
    case False
    then show ?thesis using "1.prems"
      by (subst (asm) shift_in.simps) (auto split: if_splits)
  qed
qed

lemma shift_in_fault: "shift_in e = Inl er \<Longrightarrow> er \<noteq> AssertFailed"
proof (induction e rule: shift_in.induct)
  case (1 e)
  show ?case
  proof (cases "msb_equal e")
    case True
    let ?r = "if bufIdx (shift_range e) < bufSize (shift_range e) then next_in (shift_range e)
               else Inr (0, shift_range e)"
    show ?thesis
    proof (cases ?r)
      case (Inl a)
      then have "a \<noteq> AssertFailed" using next_in_fault[of "shift_range e" a] by (auto split: if_splits)
      with Inl True "1.prems" show ?thesis
        by (subst (asm) shift_in.simps) simp
    next
      case (Inr ce)
      obtain c e1 where ce: "ce = (c, e1)" by (cases ce)
      with Inr True "1.prems"
      have "shift_in (e1\<lparr>enc_x := push_bit 8 (enc_x e1) + word_of_int c\<rparr>) = Inl er"
        by (subst (asm) shift_in.simps) simp
      with "1.IH"[OF True Inr[unfolded ce] refl] show ?thesis by simp
    qed
  next
    case False
    then show ?thesis using "1.prems"
      by (subst (asm) shift_in.simps) (auto split: if_splits)
  qed
qed

lemma coder_ok_lt: "coder_ok e \<Longrightarrow> enc_x1 e < enc_x2 e"
  by (auto simp: coder_ok_def msb_equal_def order_less_le)

lemma Predictor_ok_cxt: "Predictor_ok (pr\<lparr>pr_sm := (pr_sm pr)\<lparr>sm_cxt := k\<rparr>\<rparr>) = Predictor_ok pr"
  by (simp add: Predictor_ok_def)

lemma encode_unfold:
  assumes "coder_ok e" "y = 0 \<or> y = 1"
  obtains pv pr2 where
    "Predictor_p (predictor e) = Inr (pv, (predictor e)\<lparr>pr_sm := (pr_sm (predictor e))\<lparr>sm_cxt := key_of (predictor e)\<rparr>\<rparr>)"
    "(word_of_int pv :: U32) \<le> 0xffff" "Predictor_ok pr2"
    "enc_x1 e \<le> xmid_of (enc_x1 e) (enc_x2 e) (word_of_int pv)"
    "xmid_of (enc_x1 e) (enc_x2 e) (word_of_int pv) < enc_x2 e"
    "encode y e = shift_out ((if y \<noteq> 0 then e\<lparr>enc_x2 := xmid_of (enc_x1 e) (enc_x2 e) (word_of_int pv)\<rparr>
                 else e\<lparr>enc_x1 := xmid_of (enc_x1 e) (enc_x2 e) (word_of_int pv) + 1\<rparr>)\<lparr>predictor := pr2\<rparr>)"
proof -
  let ?pr1 = "(predictor e)\<lparr>pr_sm := (pr_sm (predictor e))\<lparr>sm_cxt := key_of (predictor e)\<rparr>\<rparr>"
  from assms(1) have ok: "Predictor_ok (predictor e)" by (simp add: coder_ok_def)
  from Predictor_p_ok[OF ok] obtain pv where
    p: "Predictor_p (predictor e) = Inr (pv, ?pr1)" and pv: "(word_of_int pv :: U32) \<le> 0xffff"
    by blast
  have ok1: "Predictor_ok ?pr1" using ok by (simp only: Predictor_ok_cxt)
  have k: "0 \<le> sm_cxt (pr_sm ?pr1)" "sm_cxt (pr_sm ?pr1) < 0x10000"
    using key_of_range[OF ok] by simp_all
  from Predictor_update_ok[OF ok1 k assms(2)] obtain pr2 where
    u: "Predictor_update y ?pr1 = Inr pr2" and ok2: "Predictor_ok pr2" by blast
  note x = xmid_in_range[OF coder_ok_lt[OF assms(1)] pv]
  have "encode y e = shift_out ((if y \<noteq> 0 then e\<lparr>enc_x2 := xmid_of (enc_x1 e) (enc_x2 e) (word_of_int pv)\<rparr>
                 else e\<lparr>enc_x1 := xmid_of (enc_x1 e) (enc_x2 e) (word_of_int pv) + 1\<rparr>)\<lparr>predictor := pr2\<rparr>)"
    unfolding encode_def using p pv u x assms(2) by (simp add: Let_def)
  with p pv ok2 x show thesis by (intro that) simp_all
qed

lemma decode_unfold:
  assumes "coder_ok e"
  obtains pv pr2 where
    "Predictor_p (predictor e) = Inr (pv, (predictor e)\<lparr>pr_sm := (pr_sm (predictor e))\<lparr>sm_cxt := key_of (predictor e)\<rparr>\<rparr>)"
    "(word_of_int pv :: U32) \<le> 0xffff" "Predictor_ok pr2"
    "enc_x1 e \<le> xmid_of (enc_x1 e) (enc_x2 e) (word_of_int pv)"
    "xmid_of (enc_x1 e) (enc_x2 e) (word_of_int pv) < enc_x2 e"
    "decode e = (case shift_in ((if enc_x e \<le> xmid_of (enc_x1 e) (enc_x2 e) (word_of_int pv)
                then e\<lparr>enc_x2 := xmid_of (enc_x1 e) (enc_x2 e) (word_of_int pv)\<rparr>
                else e\<lparr>enc_x1 := xmid_of (enc_x1 e) (enc_x2 e) (word_of_int pv) + 1\<rparr>)\<lparr>predictor := pr2\<rparr>) of
         Inl er \<Rightarrow> Inl er
       | Inr e2 \<Rightarrow> Inr (if enc_x e \<le> xmid_of (enc_x1 e) (enc_x2 e) (word_of_int pv) then 1 else 0, e2))"
proof -
  let ?pr1 = "(predictor e)\<lparr>pr_sm := (pr_sm (predictor e))\<lparr>sm_cxt := key_of (predictor e)\<rparr>\<rparr>"
  from assms(1) have ok: "Predictor_ok (predictor e)" by (simp add: coder_ok_def)
  from Predictor_p_ok[OF ok] obtain pv where
    p: "Predictor_p (predictor e) = Inr (pv, ?pr1)" and pv: "(word_of_int pv :: U32) \<le> 0xffff"
    by blast
  let ?y = "if enc_x e \<le> xmid_of (enc_x1 e) (enc_x2 e) (word_of_int pv) then 1 else 0 :: int"
  have y: "?y = 0 \<or> ?y = 1" by simp
  have ok1: "Predictor_ok ?pr1" using ok by (simp only: Predictor_ok_cxt)
  have k: "0 \<le> sm_cxt (pr_sm ?pr1)" "sm_cxt (pr_sm ?pr1) < 0x10000"
    using key_of_range[OF ok] by simp_all
  from Predictor_update_ok[OF ok1 k y] obtain pr2 where
    u: "Predictor_update ?y ?pr1 = Inr pr2" and ok2: "Predictor_ok pr2" by blast
  note x = xmid_in_range[OF coder_ok_lt[OF assms(1)] pv]
  have "decode e = (case shift_in ((if enc_x e \<le> xmid_of (enc_x1 e) (enc_x2 e) (word_of_int pv)
                then e\<lparr>enc_x2 := xmid_of (enc_x1 e) (enc_x2 e) (word_of_int pv)\<rparr>
                else e\<lparr>enc_x1 := xmid_of (enc_x1 e) (enc_x2 e) (word_of_int pv) + 1\<rparr>)\<lparr>predictor := pr2\<rparr>) of
         Inl er \<Rightarrow> Inl er
       | Inr e2 \<Rightarrow> Inr (?y, e2))"
    unfolding decode_def using p pv u x by (simp add: Let_def)
  with p pv ok2 x show thesis by (intro that) simp_all
qed

lemma encode_preserves:
  assumes "coder_ok e" "y = 0 \<or> y = 1" "encode y e = Inr (True, e')"
  shows "coder_ok e'"
proof -
  from assms(1,2) obtain pv pr2 where pr2: "Predictor_ok pr2"
    and lo: "enc_x1 e \<le> xmid_of (enc_x1 e) (enc_x2 e) (word_of_int pv)"
    and hi: "xmid_of (enc_x1 e) (enc_x2 e) (word_of_int pv) < enc_x2 e"
    and en: "encode y e = shift_out ((if y \<noteq> 0 then e\<lparr>enc_x2 := xmid_of (enc_x1 e) (enc_x2 e) (word_of_int pv)\<rparr>
                 else e\<lparr>enc_x1 := xmid_of (enc_x1 e) (enc_x2 e) (word_of_int pv) + 1\<rparr>)\<lparr>predictor := pr2\<rparr>)"
    by (rule encode_unfold)
  let ?e1 = "(if y \<noteq> 0 then e\<lparr>enc_x2 := xmid_of (enc_x1 e) (enc_x2 e) (word_of_int pv)\<rparr>
                 else e\<lparr>enc_x1 := xmid_of (enc_x1 e) (enc_x2 e) (word_of_int pv) + 1\<rparr>)\<lparr>predictor := pr2\<rparr>"
  have o: "enc_x1 ?e1 \<le> enc_x2 ?e1" using lo succ_le[OF hi] by simp
  from assms(3) en have "shift_out ?e1 = Inr (True, e')" by simp
  from shift_out_props[OF this] o pr2 show ?thesis by (simp add: coder_ok_def)
qed

lemma encode_no_assert:
  assumes "coder_ok e" "y = 0 \<or> y = 1"
  shows "encode y e \<noteq> Inl AssertFailed"
proof -
  from assms obtain e1 where "encode y e = shift_out e1" by (rule encode_unfold)
  then show ?thesis using shift_out_fault[of e1 AssertFailed] by auto
qed

lemma decode_preserves:
  assumes "coder_ok e" "decode e = Inr (y, e')"
  shows "coder_ok e'"
proof -
  from assms(1) obtain pv pr2 where pr2: "Predictor_ok pr2"
    and lo: "enc_x1 e \<le> xmid_of (enc_x1 e) (enc_x2 e) (word_of_int pv)"
    and hi: "xmid_of (enc_x1 e) (enc_x2 e) (word_of_int pv) < enc_x2 e"
    and de: "decode e = (case shift_in ((if enc_x e \<le> xmid_of (enc_x1 e) (enc_x2 e) (word_of_int pv)
                then e\<lparr>enc_x2 := xmid_of (enc_x1 e) (enc_x2 e) (word_of_int pv)\<rparr>
                else e\<lparr>enc_x1 := xmid_of (enc_x1 e) (enc_x2 e) (word_of_int pv) + 1\<rparr>)\<lparr>predictor := pr2\<rparr>) of
         Inl er \<Rightarrow> Inl er
       | Inr e2 \<Rightarrow> Inr (if enc_x e \<le> xmid_of (enc_x1 e) (enc_x2 e) (word_of_int pv) then 1 else 0, e2))"
    by (rule decode_unfold)
  let ?e1 = "(if enc_x e \<le> xmid_of (enc_x1 e) (enc_x2 e) (word_of_int pv)
                then e\<lparr>enc_x2 := xmid_of (enc_x1 e) (enc_x2 e) (word_of_int pv)\<rparr>
                else e\<lparr>enc_x1 := xmid_of (enc_x1 e) (enc_x2 e) (word_of_int pv) + 1\<rparr>)\<lparr>predictor := pr2\<rparr>"
  have o: "enc_x1 ?e1 \<le> enc_x2 ?e1" using lo succ_le[OF hi] by simp
  from assms(2) have "shift_in ?e1 = Inr e'"
    unfolding de by (cases "shift_in ?e1") simp_all
  from shift_in_props[OF this] o pr2 show ?thesis by (simp add: coder_ok_def)
qed

lemma decode_no_assert:
  assumes "coder_ok e"
  shows "decode e \<noteq> Inl AssertFailed"
proof -
  from assms obtain e1 y where "decode e = (case shift_in e1 of Inl er \<Rightarrow> Inl er | Inr e2 \<Rightarrow> Inr (y, e2))"
    by (rule decode_unfold)
  then show ?thesis using shift_in_fault[of e1 AssertFailed] by (auto split: sum.splits)
qed

lemma coder_ok_init_compress: "Encoder_init_compress COMPRESS out sz = Inr e \<Longrightarrow> coder_ok e"
  by (auto simp: Encoder_init_compress_def coder_ok_def Predictor_ok_init msb_equal_def)

lemma coder_ok_init_decompress:
  assumes "Encoder_init_decompress DECOMPRESS inp sz = Inr e"
  shows "coder_ok e"
proof -
  from assms have "predictor e = Predictor_init" "enc_x1 e = 0" "enc_x2 e = 0xffffffff"
    using init_x_predictor[of 4 _ e] init_x_range[of 4 _ e]
    by (auto simp: Encoder_init_decompress_def Let_def)
  then show ?thesis by (simp add: coder_ok_def Predictor_ok_init msb_equal_def)
qed

lemma enc_reach_ok: "enc_reach e \<Longrightarrow> coder_ok e"
  by (induction rule: enc_reach.induct) (auto intro: coder_ok_init_compress encode_preserves)

lemma dec_reach_ok: "dec_reach e \<Longrightarrow> coder_ok e"
  by (induction rule: dec_reach.induct) (auto intro: coder_ok_init_decompress decode_preserves)

lemma encode_order:
  assumes "encode y e = Inr (ok, e')"
  shows "enc_x1 e' \<le> enc_x2 e'"
proof -
  from assms obtain pv pr2 where
    lo: "enc_x1 e \<le> xmid_of (enc_x1 e) (enc_x2 e) (word_of_int pv)"
    and hi: "xmid_of (enc_x1 e) (enc_x2 e) (word_of_int pv) < enc_x2 e"
    and s: "shift_out ((if y \<noteq> 0 then e\<lparr>enc_x2 := xmid_of (enc_x1 e) (enc_x2 e) (word_of_int pv)\<rparr>
                 else e\<lparr>enc_x1 := xmid_of (enc_x1 e) (enc_x2 e) (word_of_int pv) + 1\<rparr>)\<lparr>predictor := pr2\<rparr>)
       = Inr (ok, e')"
    by (rule encode_Inr)
  from shift_out_props[OF s] lo succ_le[OF hi] show ?thesis by simp
qed

text \<open>
  C7. In every state a coder reaches from construction by calls of \<open>encode\<close> or of
  \<open>decode\<close>, \<open>x1 \<le> x2\<close>, the split point computed from the predictor's probability
  satisfies \<open>x1 \<le> xmid < x2\<close>, and no assertion of \<open>encode\<close> or \<open>decode\<close> fails; the
  range is ordered after a call of \<open>encode\<close> that returned false as well.
\<close>

theorem interval_invariant:
  assumes "enc_reach e \<or> dec_reach e"
  shows "enc_x1 e \<le> enc_x2 e
    \<and> (\<exists>pv pr. Predictor_p (predictor e) = Inr (pv, pr) \<and> (word_of_int pv :: U32) \<le> 0xffff
          \<and> enc_x1 e \<le> xmid_of (enc_x1 e) (enc_x2 e) (word_of_int pv)
          \<and> xmid_of (enc_x1 e) (enc_x2 e) (word_of_int pv) < enc_x2 e)
    \<and> encode 0 e \<noteq> Inl AssertFailed \<and> encode 1 e \<noteq> Inl AssertFailed
    \<and> decode e \<noteq> Inl AssertFailed
    \<and> (\<forall>y e'. encode y e = Inr (False, e') \<longrightarrow> enc_x1 e' \<le> enc_x2 e')"
proof -
  from assms have ok: "coder_ok e" using enc_reach_ok dec_reach_ok by blast
  from ok obtain pv pr where "Predictor_p (predictor e) = Inr (pv, pr)"
    "(word_of_int pv :: U32) \<le> 0xffff"
    "enc_x1 e \<le> xmid_of (enc_x1 e) (enc_x2 e) (word_of_int pv)"
    "xmid_of (enc_x1 e) (enc_x2 e) (word_of_int pv) < enc_x2 e"
    by (rule decode_unfold)
  then show ?thesis
    using ok encode_no_assert[OF ok, of 0] encode_no_assert[OF ok, of 1] decode_no_assert[OF ok]
      encode_order
    by (auto simp: coder_ok_def)
qed

theorem interval_invariant_witness:
  "\<exists>e0 e1. Encoder_init_compress COMPRESS None 0 = Inr e0 \<and> encode 1 e0 = Inr (True, e1)
     \<and> enc_reach e1 \<and> enc_x1 e1 = 0 \<and> enc_x2 e1 = 0x7fffffff
     \<and> enc_x1 e1 \<le> enc_x2 e1 \<and> encode 0 e1 \<noteq> Inl AssertFailed"
proof -
  define e0 where "e0 = \<lparr>predictor = Predictor_init, mode = COMPRESS, inBuf = None, outBuf = None,
      bufIdx = 0, bufSize = 0, enc_x1 = 0, enc_x2 = 0xffffffff, enc_x = 0\<rparr>"
  have i: "Encoder_init_compress COMPRESS None 0 = Inr e0"
    by (simp add: Encoder_init_compress_def e0_def)
  have "predictor e0 = Predictor_init" "enc_x1 e0 = 0" "enc_x2 e0 = 0xffffffff" "(1::int) = 0 \<or> (1::int) = 1"
    by (simp_all add: e0_def)
  from first_encode[OF this] obtain e1 where s: "encode 1 e0 = Inr (True, e1)" ..
  have r: "enc_reach e1" by (rule enc_step[OF enc_init[OF i] _ s]) simp
  have x: "enc_x1 e1 = 0 \<and> enc_x2 e1 = 0x7fffffff"
    using s Predictor_update_first[of 1] 
    by (auto simp: encode_def e0_def Predictor_p_init xmid_of_def shift_out.simps msb_equal_def)
  from interval_invariant[OF disjI1[OF r]] i s r x show ?thesis by blast
qed

section \<open>Stores to the output buffer\<close>

lemma keeps_out_refl: "keeps_out e e"
  by (simp add: keeps_out_def writes_below_refl)

lemma keeps_out_trans: "keeps_out a b \<Longrightarrow> keeps_out b c \<Longrightarrow> keeps_out a c"
  by (auto simp: keeps_out_def intro: writes_below_trans)

lemma encode_keeps_out:
  assumes "encode y e = Inr (ok, e')"
  shows "keeps_out e e'"
proof -
  from assms obtain e1 where s: "shift_out e1 = Inr (ok, e')"
    and e1: "bufSize e1 = bufSize e" "outBuf e1 = outBuf e"
    by (rule encode_Inr) (auto split: if_splits)
  from shift_out_props[OF s] e1 show ?thesis by (simp add: keeps_out_def)
qed

lemma encode_bits_keeps_out:
  "encode_bits k c e = Inr (ok, e') \<Longrightarrow> keeps_out e e'"
proof (induction k arbitrary: e)
  case 0
  then show ?case by (simp add: keeps_out_refl)
next
  case (Suc k)
  from Suc.prems obtain ok1 e1 where
    a: "encode (uint (drop_bit k c) AND 1) e = Inr (ok1, e1)"
    by (auto split: sum.splits)
  show ?case
  proof (cases ok1)
    case True
    with Suc.prems a have "encode_bits k c e1 = Inr (ok, e')" by simp
    from Suc.IH[OF this] encode_keeps_out[OF a] show ?thesis by (rule keeps_out_trans[rotated])
  next
    case False
    with Suc.prems a have "e' = e1" by simp
    with encode_keeps_out[OF a] show ?thesis by simp
  qed
qed

lemma flush_keeps_out:
  assumes "flush e = Inr (ok, e')"
  shows "keeps_out e e'"
proof (cases "mode e = COMPRESS")
  case True
  with assms obtain ok1 e1 where s: "shift_out e = Inr (ok1, e1)"
    by (auto simp: flush_def split: sum.splits)
  from shift_out_props[OF s] have k1: "keeps_out e e1" by (simp add: keeps_out_def)
  show ?thesis
  proof (cases "ok1 \<and> bufIdx e1 < bufSize e1")
    case t: True
    with assms True s obtain e2 where p: "put_out (ucast (drop_bit 24 (enc_x2 e1))) e1 = Inr e2"
      and e': "e' = e2"
      by (auto simp: flush_def split: sum.splits)
    from t have "bufIdx e1 < bufSize e1" by simp
    from put_out_props[OF p this] have "keeps_out e1 e2" by (simp add: keeps_out_def)
    with k1 e' show ?thesis by (auto intro: keeps_out_trans)
  next
    case False
    with assms True s have "e' = e1" by (auto simp: flush_def split: if_splits)
    with k1 show ?thesis by simp
  qed
next
  case False
  with assms show ?thesis by (simp add: flush_def keeps_out_refl)
qed

lemma compress_loop_keeps_out:
  assumes "compress_loop inp len idx e = Some r"
  shows "case r of Inl er \<Rightarrow> True | Inr (ok, e') \<Rightarrow> keeps_out e e'"
  using assms
proof (induction rule: compress_loop.raw_induct[rotated 1, consumes 1])
  case (1 compress_loop inp len idx e r)
  show ?case
  proof (cases r)
    case (Inl a)
    then show ?thesis by simp
  next
    case (Inr oe)
    obtain ok e' where oe: "oe = (ok, e')" by (cases oe)
    show ?thesis
    proof (cases "ucast idx < len")
      case False
      with 1(2) Inr oe show ?thesis by (simp add: keeps_out_refl)
    next
      case True
      with 1(2) Inr oe obtain c ok1 e1 where
        e1: "encode 1 e = Inr (ok1, e1)" and rd: "read_byte inp (unat idx) = Inr c"
        by (auto split: sum.splits)
      note k1 = encode_keeps_out[OF e1]
      show ?thesis
      proof (cases ok1)
        case f: False
        with 1(2) Inr oe True e1 rd have "e' = e1" by simp
        with k1 Inr oe show ?thesis by simp
      next
        case t: True
        with 1(2) Inr oe True e1 rd obtain ok2 e2 where
          e2: "encode_bits 8 c e1 = Inr (ok2, e2)"
          by (auto split: sum.splits)
        note k2 = keeps_out_trans[OF k1 encode_bits_keeps_out[OF e2]]
        show ?thesis
        proof (cases ok2)
          case False
          with 1(2) Inr oe True e1 rd t e2 have "e' = e2" by simp
          with k2 Inr oe show ?thesis by simp
        next
          case True
          with 1(2) Inr oe \<open>ucast idx < len\<close> e1 rd t e2
          have "compress_loop inp len (idx + 1) e2 = Some r" by simp
          from 1(1)[OF this] Inr oe k2 show ?thesis by (auto intro: keeps_out_trans)
        qed
      qed
    qed
  qed
qed


lemma unat_ucast_32_64: "unat (ucast (i::U32) :: size_t) = unat i"
proof -
  have "unat i < 2 ^ 32" using unsigned_less[of i] by simp
  then have "unat i < 2 ^ 64" by simp
  then have "take_bit 64 (unat i) = unat i" by (rule take_bit_nat_eq_self)
  then show ?thesis by (simp add: unsigned_ucast_eq)
qed
lemma unat_ucast_64_32: "unat (ucast (b :: size_t) :: U32) = unat b mod 2 ^ 32"
  by (simp add: unsigned_ucast_eq take_bit_eq_mod)

lemma write_byte_below:
  "write_byte out i v = Inr out' \<Longrightarrow> i < cap \<Longrightarrow> writes_below cap out out'"
  by (auto simp: write_byte_def writes_below_def split: option.splits)

lemma decompress_loop_writes:
  assumes "decompress_loop e idx out bufsize = Some r"
  shows "case r of Inl er \<Rightarrow> True | Inr (n, out') \<Rightarrow> writes_below (unat bufsize) out out'"
  using assms
proof (induction rule: decompress_loop.raw_induct[rotated 1, consumes 1])
  case (1 decompress_loop e idx out bufsize r)
  show ?case
  proof (cases r)
    case (Inl a)
    then show ?thesis by simp
  next
    case (Inr no)
    obtain n out' where no: "no = (n, out')" by (cases no)
    from 1(2) Inr obtain y e1 where d: "decode e = Inr (y, e1)"
      by (auto split: sum.splits)
    show ?thesis
    proof (cases "y \<noteq> 0 \<and> ucast idx < bufsize")
      case True
      with 1(2) Inr no d obtain c e2 out1 where
        b: "decode_byte 1 e1 = Some (Inr (c, e2))"
        and w: "write_byte out (unat idx) (word_of_int (c - 256)) = Inr out1"
        and r: "decompress_loop e2 (idx + 1) out1 bufsize = Some r"
        by (auto split: sum.splits option.splits)
      from True have "unat idx < unat bufsize"
        by (simp add: word_less_nat_alt unat_ucast_32_64)
      from write_byte_below[OF w this] 1(1)[OF r] Inr no show ?thesis
        by (auto intro: writes_below_trans)
    next
      case False
      with 1(2) Inr no d have "out' = out"
        by (auto split: sum.splits option.splits if_splits)
      with Inr no show ?thesis by (simp add: writes_below_refl)
    qed
  qed
qed

lemma ucast_size_le: "unat (ucast (bufsize :: size_t) :: U32) \<le> unat bufsize"
  by (simp add: unat_ucast_64_32)

text \<open>
  C10. Every store of \<open>encode\<close> and of \<open>flush\<close> goes below the coder's capacity, and
  when \<open>fpaq0f2_compress\<close> or \<open>fpaq0f2_decompress\<close> returns, the output store differs
  from the one it was given only at indices below \<open>bufsize\<close>.
\<close>

theorem stores_below_capacity:
  "(encode y e = Inr (ok, e') \<longrightarrow> writes_below (unat (bufSize e)) (outBuf e) (outBuf e'))
   \<and> (flush e = Inr (ok, e') \<longrightarrow> writes_below (unat (bufSize e)) (outBuf e) (outBuf e'))
   \<and> (fpaq0f2_compress inp len out bufsize = Some (Inr (r, out'))
        \<longrightarrow> writes_below (unat bufsize) out out')
   \<and> (fpaq0f2_decompress inp len out bufsize = Some (Inr (r, out'))
        \<longrightarrow> writes_below (unat bufsize) out out')"
proof (intro conjI impI)
  assume "encode y e = Inr (ok, e')"
  from encode_keeps_out[OF this] show "writes_below (unat (bufSize e)) (outBuf e) (outBuf e')"
    by (simp add: keeps_out_def)
next
  assume "flush e = Inr (ok, e')"
  from flush_keeps_out[OF this] show "writes_below (unat (bufSize e)) (outBuf e) (outBuf e')"
    by (simp add: keeps_out_def)
next
  assume c: "fpaq0f2_compress inp len out bufsize = Some (Inr (r, out'))"
  let ?e0 = "\<lparr>predictor = Predictor_init, mode = COMPRESS, inBuf = None, outBuf = out,
      bufIdx = 0, bufSize = ucast bufsize, enc_x1 = 0, enc_x2 = 0xffffffff, enc_x = 0\<rparr>"
  show "writes_below (unat bufsize) out out'"
  proof (cases "(inp = None \<and> 0 < len) \<or> (out = None \<and> 0 < bufsize)")
    case True
    with c have "out' = out" by (auto simp: fpaq0f2_compress_def split: if_splits)
    then show ?thesis by (simp add: writes_below_refl)
  next
    case False
    with c obtain ok1 e1 where l: "compress_loop inp len 0 ?e0 = Some (Inr (ok1, e1))"
      by (auto simp: fpaq0f2_compress_def Encoder_init_compress_def split: option.splits sum.splits)
    from compress_loop_keeps_out[OF l] have k1: "keeps_out ?e0 e1" by simp
    have "\<exists>e3. keeps_out ?e0 e3 \<and> out' = outBuf e3"
    proof (cases ok1)
      case False
      with c \<open>\<not> ((inp = None \<and> 0 < len) \<or> (out = None \<and> 0 < bufsize))\<close> l k1 show ?thesis
        by (auto simp: fpaq0f2_compress_def Encoder_init_compress_def)
    next
      case t1: True
      with c False l obtain ok2 e2 where e2: "encode 0 e1 = Inr (ok2, e2)"
        by (auto simp: fpaq0f2_compress_def Encoder_init_compress_def split: sum.splits)
      note k2 = keeps_out_trans[OF k1 encode_keeps_out[OF e2]]
      show ?thesis
      proof (cases ok2)
        case False
        with c \<open>\<not> ((inp = None \<and> 0 < len) \<or> (out = None \<and> 0 < bufsize))\<close> l t1 e2 k2 show ?thesis
          by (auto simp: fpaq0f2_compress_def Encoder_init_compress_def)
      next
        case t2: True
        with c False l t1 e2 obtain ok3 e3 where e3: "flush e2 = Inr (ok3, e3)"
          by (auto simp: fpaq0f2_compress_def Encoder_init_compress_def split: sum.splits)
        note k3 = keeps_out_trans[OF k2 flush_keeps_out[OF e3]]
        from c False l t1 e2 t2 e3 have "out' = outBuf e3"
          by (auto simp: fpaq0f2_compress_def Encoder_init_compress_def split: if_splits)
        with k3 show ?thesis by blast
      qed
    qed
    then have "writes_below (unat (ucast bufsize :: U32)) out out'"
      by (auto simp: keeps_out_def)
    then show ?thesis using ucast_size_le[of bufsize] by (rule writes_below_mono)
  qed
next
  assume d: "fpaq0f2_decompress inp len out bufsize = Some (Inr (r, out'))"
  show "writes_below (unat bufsize) out out'"
  proof (cases "(inp = None \<and> 0 < len) \<or> (out = None \<and> 0 < bufsize)")
    case True
    with d have "out' = out" by (auto simp: fpaq0f2_decompress_def split: if_splits)
    then show ?thesis by (simp add: writes_below_refl)
  next
    case False
    with d obtain e where "decompress_loop e 0 out bufsize = Some (Inr (r, out'))"
      by (auto simp: fpaq0f2_decompress_def split: sum.splits)
    from decompress_loop_writes[OF this] show ?thesis by simp
  qed
qed

section \<open>StateMap monotonicity\<close>

lemma unat_hi24: "unat ((w::U32) AND 0xffffff00) = unat w - unat w mod 256"
proof -
  have "w AND 0xffffff00 = push_bit 8 (drop_bit 8 w)"
  proof -
    have c: "(0xffffff00::U32) = NOT (mask 8)" by (simp add: mask_eq_exp_minus_1)
    show ?thesis unfolding c by (auto simp: bit_eq_iff bit_simps)
  qed
  then have "unat (w AND 0xffffff00) = (unat w div 256) * 256 mod 2 ^ 32"
    by (simp add: push_bit_eq_mult drop_bit_eq_div unat_word_ariths unat_div mod_simps)
  moreover have "unat w < 2 ^ 32" using unsigned_less[of w] by simp
  ultimately show ?thesis by (simp add: minus_mod_eq_div_mult)
qed

lemma unat_of_int_nat: "k < 2 ^ 32 \<Longrightarrow> unat (word_of_int (int k) :: U32) = k"
  by (simp add: unat_of_nat)

lemma unat_of_int_neg:
  assumes "0 < k" "k < 2 ^ 32"
  shows "unat (word_of_int (- int k) :: U32) = 2 ^ 32 - k"
proof -
  have "uint (word_of_int (- int k) :: U32) = (- int k) mod 2 ^ 32"
    by (simp only: uint_word_of_int) simp
  also have "\<dots> = 2 ^ 32 - int k"
    using assms by (simp add: zmod_zminus1_eq_if)
  finally have "nat (uint (word_of_int (- int k) :: U32)) = 2 ^ 32 - k"
    using assms by (simp add: nat_diff_distrib')
  then show ?thesis by (simp only: unat_eq_nat_uint)
qed

lemma update_as_cell_update:
  assumes "0 \<le> sm_cxt s" "sm_cxt s < sm_N s" "nat (sm_cxt s) < length (sm_t s)"
    and "y = 0 \<or> y = 1" "0 \<le> limit" "limit < 255"
  shows "StateMap_update y limit s
     = Inr (s\<lparr>sm_t := (sm_t s)[nat (sm_cxt s) := cell_update y limit (sm_t s ! nat (sm_cxt s))]\<rparr>)"
  using assms by (auto simp: StateMap_update_def cell_update_def Let_def)

lemma cnt_uint: "uint (v AND 255) = int (cnt v)"
  using unat_low8[of v] by (simp add: cnt_def uint_nat)

lemma p18_uint: "uint (drop_bit 14 v) = int (p18 v)"
proof -
  have "unat (drop_bit 14 v) = unat v div 16384"
    by (simp add: unat_drop_bit_eq) (simp add: drop_bit_eq_div)
  then show ?thesis by (simp add: p18_def uint_nat)
qed

lemma dtn_dt: "dt ! cnt v = int (dtn v)"
proof -
  have "cnt v < 256" by (simp add: cnt_def)
  then show ?thesis by (simp add: dt_nth dtn_def zdiv_int)
qed

lemma p18_lt: "p18 v < 262144"
  using unsigned_less[of v, where 'a=nat] by (simp add: p18_def)

lemma cnt_lt: "cnt v < 256" by (simp add: cnt_def)

lemma cell_update_alt:
  "cell_update y limit v =
     (if int (cnt v) < limit then v + 1 else v)
       + (word_of_int ((push_bit 18 y - int (p18 v)) * int (dtn v)) AND 0xffffff00)"
  by (simp add: cell_update_def Let_def cnt_uint p18_uint dtn_dt)

lemma dtn_le: "dtn v \<le> 10922"
proof -
  have "32768 div (2 * cnt v + 3) \<le> 32768 div 3"
    by (rule div_le_mono2) simp_all
  then show ?thesis by (simp add: dtn_def)
qed

lemma up_prod_lt: "(262144 - p18 v) * dtn v < 2 ^ 32"
proof -
  have "(262144 - p18 v) * dtn v \<le> 262144 * 10922"
    by (rule mult_le_mono) (simp_all add: dtn_le)
  then show ?thesis by simp
qed

lemma down_prod_le: "p18 v * dtn v + 255 \<le> unat v \<or> p18 v * dtn v = 0"
proof (cases "p18 v = 0")
  case True
  then show ?thesis by simp
next
  case False
  have "p18 v * dtn v \<le> p18 v * 10922" by (rule mult_le_mono) (simp_all add: dtn_le)
  moreover have "p18 v * 16384 \<le> unat v" by (simp add: p18_def)
  ultimately have "p18 v * dtn v + 255 \<le> unat v" using False by linarith
  then show ?thesis ..
qed

lemma unat_inc: "unat (if b then (v::U32) + 1 else v) = (unat v + (if b then 1 else 0)) mod 2 ^ 32"
  using unsigned_less[of v, where 'a=nat] by (simp add: unat_word_ariths)

lemma unat_add_masked:
  assumes "unat (M::U32) = m"
  shows "unat ((if b then (v::U32) + 1 else v) + M) = (unat v + (if b then 1 else 0) + m) mod 2 ^ 32"
proof -
  have "unat ((if b then v + 1 else v) + M) = (unat (if b then v + 1 else v) + unat M) mod 2 ^ 32"
    by (simp add: unat_word_ariths)
  also have "\<dots> = ((unat v + (if b then 1 else 0)) mod 2 ^ 32 + m) mod 2 ^ 32"
    by (simp only: unat_inc assms)
  also have "\<dots> = (unat v + (if b then 1 else 0) + m) mod 2 ^ 32"
    by (simp only: mod_add_left_eq)
  finally show ?thesis .
qed


lemma cell_update_1_unat:
  "unat (cell_update 1 limit v)
     = (unat v + (if int (cnt v) < limit then 1 else 0)
        + ((262144 - p18 v) * dtn v - ((262144 - p18 v) * dtn v) mod 256)) mod 2 ^ 32"
proof -
  define X where "X = (262144 - p18 v) * dtn v"
  have "(push_bit 18 1 - int (p18 v)) * int (dtn v) = int X"
    using p18_lt[of v] by (simp add: X_def)
  moreover have "X < 2 ^ 32" using up_prod_lt[of v] by (simp add: X_def)
  ultimately have "unat (word_of_int ((push_bit 18 1 - int (p18 v)) * int (dtn v)) AND 0xffffff00 :: U32)
      = X - X mod 256"
    by (simp only: unat_hi24 unat_of_int_nat)
  from unat_add_masked[OF this] show ?thesis
    by (simp only: cell_update_alt X_def)
qed

lemma mod_le_minus: "(m::nat) \<le> S \<Longrightarrow> S mod m \<le> S - m"
  by (metis le_mod_geq mod_less_eq_dividend)

lemma cell_update_0_le:
  "unat (cell_update 0 limit v) \<le> unat v + (if int (cnt v) < limit then 1 else 0)"
proof -
  define W where "W = p18 v * dtn v"
  define inc :: nat where "inc = (if int (cnt v) < limit then 1 else 0)"
  have e: "(push_bit 18 0 - int (p18 v)) * int (dtn v) = - int W" by (simp add: W_def)
  define m where "m = unat (word_of_int (- int W) AND 0xffffff00 :: U32)"
  have r: "unat (cell_update 0 limit v) = (unat v + inc + m) mod 2 ^ 32"
    using unat_add_masked[of "word_of_int (- int W) AND 0xffffff00" m "int (cnt v) < limit" v]
    by (simp only: cell_update_alt e m_def inc_def)
  show ?thesis
  proof (cases "W = 0")
    case True
    then have "m = 0" by (simp add: m_def)
    with r show ?thesis by (simp add: inc_def)
  next
    case False
    with down_prod_le[of v] have W: "W + 255 \<le> unat v" by (simp add: W_def)
    have v: "unat v < 2 ^ 32" using unsigned_less[of v, where 'a=nat] by simp
    from False W v have "unat (word_of_int (- int W) :: U32) = 2 ^ 32 - W"
      by (intro unat_of_int_neg) simp_all
    then have m: "m = (2 ^ 32 - W) - (2 ^ 32 - W) mod 256"
      by (simp only: m_def unat_hi24)
    have "(2 ^ 32 - W) mod 256 \<le> 255" by simp
    with m have lo: "2 ^ 32 - W - 255 \<le> m" and hi: "m \<le> 2 ^ 32 - W" by linarith+
    from lo W v have "2 ^ 32 \<le> unat v + inc + m" by linarith
    from mod_le_minus[OF this] have "(unat v + inc + m) mod 2 ^ 32 \<le> unat v + inc + m - 2 ^ 32" .
    also have "\<dots> \<le> unat v + inc" using hi W v by linarith
    finally show ?thesis using r by (simp add: inc_def)
  qed
qed

lemma cnt_and: "cnt v = unat (v AND 0xff)"
  by (simp add: cnt_def unat_low8)

lemma cnt_cell_update:
  assumes "limit \<le> 255"
  shows "cnt (cell_update y limit v) = cnt v + (if int (cnt v) < limit then 1 else 0)"
proof (cases "int (cnt v) < limit")
  case True
  with assms have "cnt v < 255" by linarith
  then have l: "unat (v AND 0xff) < 255" by (simp only: cnt_and)
  from inc_low[OF l] have "cnt (v + 1) = cnt v + 1"
    using l by (simp only: cnt_and) (simp add: unat_word_ariths)
  with True show ?thesis
    by (simp add: cell_update_alt) (simp add: cnt_and add_masked_low)
next
  case False
  then show ?thesis
    by (simp add: cell_update_alt) (simp add: cnt_and add_masked_low)
qed

lemma q_hi: "16384 * (262144 - p18 v) \<le> 2 ^ 32 - unat v + 16383"
proof -
  have "unat v < 16384 * p18 v + 16384"
    using div_mult_mod_eq[of "unat v" 16384] mod_less_divisor[of 16384 "unat v"]
    by (simp add: p18_def)
  moreover have "p18 v < 262144" by (rule p18_lt)
  ultimately show ?thesis by simp
qed

lemma q_lo: "2 ^ 32 - unat v \<le> 16384 * (262144 - p18 v)"
proof -
  have "16384 * p18 v \<le> unat v" by (simp add: p18_def)
  moreover have "p18 v < 262144" by (rule p18_lt)
  ultimately show ?thesis by simp
qed

lemma dtn_mult: "dtn v * (2 * cnt v + 3) \<le> 32768"
  by (simp add: dtn_def)

lemma dtn_hi: "6 \<le> cnt v \<Longrightarrow> dtn v \<le> 2184"
proof -
  assume "6 \<le> cnt v"
  then have "32768 div (2 * cnt v + 3) \<le> 32768 div 15"
    by (intro div_le_mono2) simp_all
  then show ?thesis by (simp add: dtn_def)
qed

lemma dtn_lo: "cnt v \<le> 89 \<Longrightarrow> 181 \<le> dtn v"
proof -
  assume "cnt v \<le> 89"
  then have "32768 div 181 \<le> 32768 div (2 * cnt v + 3)"
    by (intro div_le_mono2) simp_all
  then show ?thesis by (simp add: dtn_def)
qed

lemma dtn_90: "cnt v = 90 \<Longrightarrow> dtn v = 179"
  by (simp add: dtn_def)

lemma cell_ok_far:
  assumes "cell_ok v" "cnt v < 90"
  shows "47971962 \<le> 2 ^ 32 - unat v"
proof -
  let ?D = "2 ^ 32 - unat v + 16500"
  from assms have "2 ^ 33 \<le> ?D * (2 * cnt v + 1)" by (simp add: cell_ok_def)
  also have "\<dots> \<le> ?D * 179" using assms(2) by (intro mult_le_mono) simp_all
  finally have "2 ^ 33 \<le> ?D * 179" .
  then show ?thesis by simp
qed

lemma unat_lt: "unat (v::U32) < 2 ^ 32"
  using unsigned_less[of v, where 'a=nat] by simp

lemma up_step_bound:
  assumes "cell_ok v"
  shows "unat v + 1 + ((262144 - p18 v) * dtn v - ((262144 - p18 v) * dtn v) mod 256) < 2 ^ 32"
proof -
  define T q X where "T = unat v" and "q = 262144 - p18 v" and "X = (262144 - p18 v) * dtn v"
  have T: "T < 2 ^ 32" using unat_lt[of v] by (simp add: T_def)
  from assms have c: "6 \<le> cnt v" "cnt v \<le> 90" by (simp_all add: cell_ok_def)
  have qh: "16384 * q \<le> 2 ^ 32 - T + 16383" using q_hi[of v] by (simp add: q_def T_def)
  have Xq: "X \<le> q * 2184"
    unfolding X_def q_def using dtn_hi[OF c(1)] by (intro mult_le_mono) simp_all
  show ?thesis
  proof (cases "2 ^ 32 - T \<le> 16384")
    case True
    have n: "cnt v = 90"
    proof (rule ccontr)
      assume "cnt v \<noteq> 90"
      with c have "cnt v < 90" by simp
      from cell_ok_far[OF assms this] True show False by (simp add: T_def)
    qed
    from True T have "T div 16384 = 262143" by simp
    then have "q = 1" by (simp add: q_def p18_def T_def)
    then have "X = 179" using dtn_90[OF n] by (simp add: X_def q_def)
    moreover have "T + 1 < 2 ^ 32"
    proof (rule ccontr)
      assume "\<not> T + 1 < 2 ^ 32"
      with T have "T = 4294967295" by simp
      then have "cnt v = 255" by (simp add: cnt_def T_def)
      with n show False by simp
    qed
    ultimately show ?thesis by (simp add: T_def X_def)
  next
    case False
    with qh Xq T have "X + 1 < 2 ^ 32 - T" by linarith
    moreover have "X - X mod 256 \<le> X" by simp
    ultimately have "T + 1 + (X - X mod 256) < 2 ^ 32" using T by linarith
    then show ?thesis by (simp add: T_def X_def)
  qed
qed

lemma cell_update_1_exact:
  assumes "cell_ok v"
  shows "unat (cell_update 1 limit v)
     = unat v + (if int (cnt v) < limit then 1 else 0)
        + ((262144 - p18 v) * dtn v - ((262144 - p18 v) * dtn v) mod 256)"
proof -
  define M where "M = (262144 - p18 v) * dtn v - ((262144 - p18 v) * dtn v) mod 256"
  have "unat v + 1 + M < 2 ^ 32"
    using up_step_bound[OF assms] by (simp only: M_def)
  then have "unat v + (if int (cnt v) < limit then 1 else 0) + M < 2 ^ 32"
    by (cases "int (cnt v) < limit") simp_all
  then show ?thesis by (simp only: cell_update_1_unat mod_less flip: M_def)
qed

lemma inv_arith:
  fixes A B D D' X n :: nat
  assumes "A \<le> (D + B) * (2 * n + 1)" "X * (2 * n + 3) \<le> 2 * (D + 16383)"
    and "D \<le> D' + 1 + X" "2 * n + 32769 \<le> 2 * B"
  shows "A \<le> (D' + B) * (2 * n + 3)"
proof -
  define P1 P3 XN where "P1 = (D + B) * (2 * n + 1)" and "P3 = (D' + B) * (2 * n + 3)"
    and "XN = X * (2 * n + 3)"
  have "(D + B) * (2 * n + 3) \<le> (D' + 1 + X + B) * (2 * n + 3)"
    using assms(3) by (intro mult_le_mono) simp_all
  moreover have "(D' + 1 + X + B) * (2 * n + 3) = P3 + (2 * n + 3) + XN"
    by (simp add: P3_def XN_def algebra_simps)
  moreover have "(D + B) * (2 * n + 3) = P1 + 2 * (D + B)"
    by (simp add: P1_def algebra_simps)
  ultimately have "P1 + 2 * (D + B) \<le> P3 + (2 * n + 3) + XN" by simp
  moreover have "A \<le> P1" "XN \<le> 2 * (D + 16383)" using assms(1,2) by (simp_all add: P1_def XN_def)
  ultimately have "A \<le> P3" using assms(4) by arith
  then show ?thesis by (simp add: P3_def)
qed

lemma cell_ok_update:
  assumes "cell_ok v" "y = 0 \<or> y = 1"
  shows "cell_ok (cell_update y 90 v)"
proof -
  let ?v' = "cell_update y 90 v"
  from assms(1) have c: "6 \<le> cnt v" "cnt v \<le> 90" by (simp_all add: cell_ok_def)
  have n': "cnt ?v' = cnt v + (if cnt v < 90 then 1 else 0)"
    using cnt_cell_update[of 90 y v] by simp
  have far: "2 ^ 33 \<le> (2 ^ 32 - unat ?v' + 16500) * (2 * cnt ?v' + 1)" if lt: "cnt ?v' < 90"
  proof -
    from lt n' c have n: "cnt v < 89" and n1: "cnt ?v' = cnt v + 1" by (simp_all split: if_splits)
    define D D' X where "D = 2 ^ 32 - unat v" and "D' = 2 ^ 32 - unat ?v'"
      and "X = (if y = 1 then (262144 - p18 v) * dtn v else 0)"
    from n assms(1) have A: "2 ^ 33 \<le> (D + 16500) * (2 * cnt v + 1)"
      by (simp add: cell_ok_def D_def)
    have XN: "X * (2 * cnt v + 3) \<le> 2 * (D + 16383)"
    proof (cases "y = 1")
      case True
      have "(262144 - p18 v) * dtn v * (2 * cnt v + 3) = (262144 - p18 v) * (dtn v * (2 * cnt v + 3))"
        by simp
      also have "\<dots> \<le> (262144 - p18 v) * 32768"
        by (intro mult_le_mono dtn_mult) simp
      also have "\<dots> \<le> 2 * (D + 16383)" using q_hi[of v] by (simp add: D_def)
      finally show ?thesis using True by (simp add: X_def)
    next
      case False
      then show ?thesis by (simp add: X_def)
    qed
    have step: "D \<le> D' + 1 + X"
    proof (cases "y = 1")
      case True
      have "unat ?v' = unat v + 1 + ((262144 - p18 v) * dtn v - ((262144 - p18 v) * dtn v) mod 256)"
        using cell_update_1_exact[OF assms(1), of 90] n True by simp
      then have "unat ?v' \<le> unat v + 1 + X" using True by (simp add: X_def)
      then show ?thesis using unat_lt[of v] unat_lt[of ?v'] by (simp add: D_def D'_def)
    next
      case False
      with assms(2) have y: "y = 0" by simp
      have "unat ?v' \<le> unat v + 1" using cell_update_0_le[of 90 v] n y by simp
      then show ?thesis using unat_lt[of v] unat_lt[of ?v'] by (simp add: D_def D'_def)
    qed
    have "2 * cnt v + 32769 \<le> 2 * 16500" using n by simp
    from inv_arith[OF A XN step this] have "2 ^ 33 \<le> (D' + 16500) * (2 * cnt v + 3)" .
    moreover have "2 * cnt ?v' + 1 = 2 * cnt v + 3" using n1 by simp
    ultimately show ?thesis by (simp only: D'_def)
  qed
  from c n' far show ?thesis by (simp add: cell_ok_def)
qed

lemma p16_uint: "uint (drop_bit 16 v) = int (p16 v)"
  using unat_drop16[of v] by (simp add: p16_def uint_nat)

lemma up_mono:
  assumes "cell_ok v"
  shows "p16 v \<le> p16 (cell_update 1 limit v)"
proof -
  have "unat v \<le> unat (cell_update 1 limit v)"
    by (simp only: cell_update_1_exact[OF assms])
  then show ?thesis unfolding p16_def by (rule div_le_mono)
qed

lemma up_strict:
  assumes "cell_ok v" "cnt v < 90"
  shows "p16 v < p16 (cell_update 1 limit v)"
proof -
  define q X where "q = 262144 - p18 v" and "X = (262144 - p18 v) * dtn v"
  have "47971962 \<le> 16384 * q"
    using cell_ok_far[OF assms] q_lo[of v] by (simp add: q_def)
  then have q: "2928 \<le> q" by simp
  have "2928 * 181 \<le> q * dtn v"
    using q dtn_lo[of v] assms(2) by (intro mult_le_mono) simp_all
  then have X: "529968 \<le> X" by (simp add: X_def q_def)
  have "X mod 256 \<le> 255" by simp
  with X have "65536 \<le> X - X mod 256" by linarith
  then have "unat v + 65536 \<le> unat (cell_update 1 limit v)"
    by (simp only: cell_update_1_exact[OF assms(1)] flip: X_def)
  then have "(unat v + 65536) div 65536 \<le> unat (cell_update 1 limit v) div 65536"
    by (rule div_le_mono)
  then show ?thesis by (simp add: p16_def)
qed

lemma up_equal_saturated:
  assumes "cell_ok v" "p16 (cell_update 1 limit v) = p16 v"
  shows "cnt v = 90 \<and> 65444 \<le> p16 v"
proof -
  from assms(1) have c: "cnt v \<le> 90" by (simp add: cell_ok_def)
  have n: "cnt v = 90"
  proof (rule ccontr)
    assume "cnt v \<noteq> 90"
    with c have "cnt v < 90" by simp
    from up_strict[OF assms(1) this, of limit] assms(2) show False by simp
  qed
  define q X where "q = 262144 - p18 v" and "X = (262144 - p18 v) * dtn v"
  have Xq: "X = q * 179" by (simp add: X_def q_def dtn_90[OF n])
  have "unat v + (X - X mod 256) \<le> unat (cell_update 1 limit v)"
    by (simp only: cell_update_1_exact[OF assms(1)] flip: X_def)
  moreover have "unat (cell_update 1 limit v) < unat v + 65536"
  proof -
    have "unat (cell_update 1 limit v) < (p16 (cell_update 1 limit v) + 1) * 65536"
      unfolding p16_def using div_mult_mod_eq[of "unat (cell_update 1 limit v)" 65536]
        mod_less_divisor[of 65536 "unat (cell_update 1 limit v)"] by simp
    moreover have "p16 v * 65536 \<le> unat v" by (simp add: p16_def)
    ultimately show ?thesis using assms(2) by simp
  qed
  ultimately have "X - X mod 256 < 65536" by linarith
  then have "X div 256 * 256 < 65536" by (simp only: minus_mod_eq_div_mult)
  then have "X div 256 < 256" by simp
  then have "X < 256 * 256" by (simp only: div_less_iff_less_mult[of 256 X 256, simplified])
  then have "X \<le> 65535" by simp
  with Xq have "q \<le> 366" by simp
  then have "261778 \<le> p18 v" using p18_lt[of v] by (simp add: q_def)
  then have "261778 div 4 \<le> p18 v div 4" by (rule div_le_mono)
  moreover have "p18 v div 4 = p16 v" by (simp add: p18_def p16_def div_mult2_eq)
  ultimately show ?thesis using n by simp
qed

lemma down_mono:
  assumes "limit \<le> 255"
  shows "p16 (cell_update 0 limit v) \<le> p16 v"
proof -
  define inc :: nat where "inc = (if int (cnt v) < limit then 1 else 0)"
  have "unat (cell_update 0 limit v) \<le> unat v + inc"
    using cell_update_0_le[of limit v] by (simp add: inc_def)
  then have "p16 (cell_update 0 limit v) \<le> (unat v + inc) div 65536"
    unfolding p16_def by (rule div_le_mono)
  also have "(unat v + inc) div 65536 = unat v div 65536"
  proof (cases "inc = 0")
    case True
    then show ?thesis by simp
  next
    case False
    then have i: "inc = 1" and "int (cnt v) < limit" by (simp_all add: inc_def split: if_splits)
    with assms have "cnt v < 255" by linarith
    then have "unat v mod 256 < 255" by (simp add: cnt_def)
    moreover have "unat v mod 65536 mod 256 = unat v mod 256"
      by (simp add: mod_mod_cancel)
    ultimately have "unat v mod 65536 \<noteq> 65535" by auto
    then have "unat v mod 65536 + 1 < 65536"
      using mod_less_divisor[of 65536 "unat v"] by linarith
    then have "(unat v mod 65536 + 1) div 65536 = 0" by simp
    then show ?thesis using i div_add1_eq[of "unat v" 1 65536] by simp
  qed
  finally show ?thesis by (simp add: p16_def)
qed

lemma init_cell_le: "unat (init_cell i) \<le> 0xD0000006"
proof -
  define k where "k = (i AND 1) * 2 + (i AND 2) + (drop_bit 2 i AND 1)
                       + (drop_bit 3 i AND 1) + (drop_bit 4 i AND 1) + (drop_bit 5 i AND 1)
                       + (drop_bit 6 i AND 1) + (drop_bit 7 i AND 1) + 3"
  have c: "init_cell i = push_bit 28 (word_of_int k) OR 6"
    by (simp add: init_cell_def k_def)
  have "3 \<le> k \<and> k \<le> 13"
    unfolding k_def and_1_bit and_2_bit drop_and_1_bit by (simp add: of_bool_def)
  then have "k \<in> {3, 4, 5, 6, 7, 8, 9, 10, 11, 12, 13}" by simp arith
  then show ?thesis unfolding c by (elim insertE emptyE) simp_all
qed

lemma cell_ok_init: "cell_ok (init_cell i)"
proof -
  have "cnt (init_cell i) = 6" by (simp add: cnt_and init_cell_count)
  moreover have "2 ^ 33 \<le> (2 ^ 32 - unat (init_cell i) + 16500) * 13"
    using init_cell_le[of i] by simp
  ultimately show ?thesis by (simp add: cell_ok_def)
qed

lemma sm_ok_init: "sm_ok (StateMap_init 0x10000)"
  by (auto simp: sm_ok_def StateMap_init_def cell_ok_init)

lemma sm_ok_p: "sm_ok s \<Longrightarrow> StateMap_p cx s = Inr (v, s') \<Longrightarrow> sm_ok s'"
  by (auto simp: sm_ok_def StateMap_p_def split: if_splits)

lemma sm_ok_update:
  assumes "sm_ok s" "StateMap_update y 90 s = Inr s'"
  shows "sm_ok s'"
proof -
  from assms(2) have y: "y = 0 \<or> y = 1"
    by (auto simp: StateMap_update_def split: if_splits)
  from assms(1) have v: "0 \<le> sm_cxt s" "sm_cxt s < sm_N s" "nat (sm_cxt s) < length (sm_t s)"
    by (auto simp: sm_ok_def)
  let ?c = "nat (sm_cxt s)"
  from update_as_cell_update[OF v y, of 90] assms(2)
  have s': "s' = s\<lparr>sm_t := (sm_t s)[?c := cell_update y 90 (sm_t s ! ?c)]\<rparr>" by simp
  have "cell_ok (sm_t s ! ?c)" using assms(1) v(3) by (simp add: sm_ok_def)
  from cell_ok_update[OF this y] have "cell_ok (cell_update y 90 (sm_t s ! ?c))" .
  then have "\<forall>w \<in> set ((sm_t s)[?c := cell_update y 90 (sm_t s ! ?c)]). cell_ok w"
    using assms(1) by (auto simp: sm_ok_def dest!: set_update_subset_insert[THEN subsetD])
  with assms(1) show ?thesis by (simp add: s' sm_ok_def)
qed

lemma sm_reach_ok: "sm_reach s \<Longrightarrow> sm_ok s"
  by (induction rule: sm_reach.induct) (auto intro: sm_ok_init sm_ok_p sm_ok_update)

lemma StateMap_p_eq:
  "0 \<le> cx \<Longrightarrow> cx < sm_N s \<Longrightarrow>
     StateMap_p cx s = Inr (int (p16 (sm_t s ! nat cx)), s\<lparr>sm_cxt := cx\<rparr>)"
  by (simp add: StateMap_p_def p16_uint)

text \<open>
  C8. In every StateMap state the codec reaches and for every context \<open>cx\<close>: when
  \<open>p(cx)\<close> returns \<open>v\<close> and \<open>update(1, limit)\<close> follows, the next \<open>p(cx)\<close> returns at
  least \<open>v\<close>, and returns \<open>v\<close> itself only when the cell's count has reached the codec's
  limit 90 and \<open>v\<close> is at least 65444; when \<open>update(0, limit)\<close> follows, the next
  \<open>p(cx)\<close> returns at most \<open>v\<close>.
\<close>

theorem StateMap_monotone:
  assumes "sm_reach s" "0 \<le> cx" "cx < 0x10000" "1 \<le> limit" "limit \<le> 254"
  shows "\<exists>v s1. StateMap_p cx s = Inr (v, s1)
     \<and> (\<exists>s2 v2 s3. StateMap_update 1 limit s1 = Inr s2 \<and> StateMap_p cx s2 = Inr (v2, s3)
            \<and> v \<le> v2 \<and> (v2 = v \<longrightarrow> uint (sm_t s ! nat cx AND 255) = 90 \<and> 65444 \<le> v))
     \<and> (\<exists>s2 v2 s3. StateMap_update 0 limit s1 = Inr s2 \<and> StateMap_p cx s2 = Inr (v2, s3)
            \<and> v2 \<le> v)"
proof -
  from sm_reach_ok[OF assms(1)] have ok: "sm_ok s" .
  let ?c = "nat cx"
  let ?w = "sm_t s ! ?c"
  let ?s1 = "s\<lparr>sm_cxt := cx\<rparr>"
  from ok assms(2,3) have N: "sm_N s = 0x10000" and c: "?c < length (sm_t s)"
    and cell: "cell_ok ?w"
    by (auto simp: sm_ok_def)
  have p: "StateMap_p cx s = Inr (int (p16 ?w), ?s1)"
    using assms(2,3) N by (intro StateMap_p_eq) simp_all
  have v1: "0 \<le> sm_cxt ?s1" "sm_cxt ?s1 < sm_N ?s1" "nat (sm_cxt ?s1) < length (sm_t ?s1)"
    using assms(2,3) N c by simp_all
  have l: "0 \<le> limit" "limit < 255" using assms(4,5) by simp_all
  have u: "StateMap_update y limit ?s1
      = Inr (?s1\<lparr>sm_t := (sm_t s)[?c := cell_update y limit ?w]\<rparr>)" if "y = 0 \<or> y = 1" for y
    using update_as_cell_update[OF v1 that l] by simp
  have p2: "StateMap_p cx (?s1\<lparr>sm_t := (sm_t s)[?c := w']\<rparr>)
      = Inr (int (p16 w'), ?s1\<lparr>sm_t := (sm_t s)[?c := w']\<rparr>)" for w'
    using assms(2,3) N c by (simp add: StateMap_p_def p16_uint)
  have up: "int (p16 ?w) \<le> int (p16 (cell_update 1 limit ?w))"
    using up_mono[OF cell, of limit] by simp
  have sat: "uint (?w AND 255) = 90 \<and> 65444 \<le> int (p16 ?w)"
    if "int (p16 (cell_update 1 limit ?w)) = int (p16 ?w)"
    using up_equal_saturated[OF cell, of limit] that by (simp add: cnt_uint)
  have down: "int (p16 (cell_update 0 limit ?w)) \<le> int (p16 ?w)"
    using down_mono[of limit ?w] assms(5) by simp
  show ?thesis
    using p u[of 1] u[of 0] p2 up sat down by auto
qed

theorem StateMap_monotone_witness:
  "sm_reach (StateMap_init 0x10000)
   \<and> (\<exists>v s1. StateMap_p 0x66 (StateMap_init 0x10000) = Inr (v, s1) \<and> v = 0x8000
        \<and> (\<exists>s2 v2 s3. StateMap_update 1 90 s1 = Inr s2 \<and> StateMap_p 0x66 s2 = Inr (v2, s3)
               \<and> v \<le> v2)
        \<and> (\<exists>s2 v2 s3. StateMap_update 0 90 s1 = Inr s2 \<and> StateMap_p 0x66 s2 = Inr (v2, s3)
               \<and> v2 \<le> v))"
proof -
  have h: "(0::int) \<le> 0x66" "(0x66::int) < 0x10000" "(1::int) \<le> 90" "(90::int) \<le> 254"
    by simp_all
  have "StateMap_p 0x66 (StateMap_init 0x10000)
      = Inr (0x8000, (StateMap_init 0x10000)\<lparr>sm_cxt := 0x66\<rparr>)"
    by (simp add: StateMap_p_def sm_init_nth init_cell_def) (simp add: StateMap_init_def)
  with StateMap_monotone[OF sm_new h] sm_new show ?thesis by auto
qed

section \<open>Return values\<close>

text \<open>
  The write index never passes the capacity, so whenever an entry point returns a value,
  the value is \<open>SIZE_MAX\<close> for a null pointer with a positive length, and otherwise
  \<open>bufsize + 1\<close> or a count of at most \<open>bufsize\<close>.
\<close>

lemma put_out_idx:
  assumes "put_out v e = Inr e'" "bufIdx e < bufSize e"
  shows "bufIdx e' \<le> bufSize e' \<and> unat (bufIdx e') = unat (bufIdx e) + 1"
proof -
  from assms(1) have e': "bufIdx e' = bufIdx e + 1" "bufSize e' = bufSize e"
    by (auto simp: put_out_def split: sum.splits)
  from assms(2) have "unat (bufIdx e) + 1 \<le> unat (bufSize e)" by (simp add: word_less_nat_alt)
  moreover have "unat (bufSize e) < 2 ^ 32" by (rule unat_lt)
  ultimately have "unat (bufIdx e + 1) = unat (bufIdx e) + 1"
    by (simp add: unat_word_ariths)
  with assms(2) e' show ?thesis by (simp add: word_le_nat_alt word_less_nat_alt)
qed

lemma shift_out_idx:
  "shift_out e = Inr (ok, e') \<Longrightarrow> bufIdx e \<le> bufSize e \<Longrightarrow>
     bufIdx e' \<le> bufSize e' \<and> bufIdx e \<le> bufIdx e'"
proof (induction e rule: shift_out.induct)
  case (1 e)
  show ?case
  proof (cases "msb_equal e \<and> bufIdx e < bufSize e")
    case True
    then obtain e1 where p: "put_out (ucast (drop_bit 24 (enc_x2 e))) e = Inr e1"
      and r: "shift_out (shift_range e1) = Inr (ok, e')"
      using "1.prems" by (subst (asm) shift_out.simps) (auto split: sum.splits)
    from True have lt: "bufIdx e < bufSize e" by simp
    note i = put_out_idx[OF p lt]
    from True p r i have "bufIdx e' \<le> bufSize e' \<and> bufIdx (shift_range e1) \<le> bufIdx e'"
      by (intro "1.IH") (auto simp: shift_range_def)
    with i show ?thesis by (simp add: shift_range_def word_le_nat_alt)
  next
    case False
    then show ?thesis using "1.prems"
      by (subst (asm) shift_out.simps) (auto split: if_splits)
  qed
qed

lemma encode_idx:
  assumes "encode y e = Inr (ok, e')" "bufIdx e \<le> bufSize e"
  shows "bufIdx e' \<le> bufSize e' \<and> bufIdx e \<le> bufIdx e'"
proof -
  from assms(1) obtain e1 where s: "shift_out e1 = Inr (ok, e')"
    and e1: "bufSize e1 = bufSize e" "bufIdx e1 = bufIdx e"
    by (rule encode_Inr) (auto split: if_splits)
  from shift_out_idx[OF s] e1 assms(2) show ?thesis by simp
qed

lemma encode_bits_idx:
  "encode_bits k c e = Inr (ok, e') \<Longrightarrow> bufIdx e \<le> bufSize e \<Longrightarrow>
     bufIdx e' \<le> bufSize e' \<and> bufIdx e \<le> bufIdx e'"
proof (induction k arbitrary: e)
  case 0
  then show ?case by simp
next
  case (Suc k)
  from Suc.prems obtain ok1 e1 where
    a: "encode (uint (drop_bit k c) AND 1) e = Inr (ok1, e1)"
    by (auto split: sum.splits)
  note i = encode_idx[OF a Suc.prems(2)]
  show ?case
  proof (cases ok1)
    case True
    with Suc.prems a have "encode_bits k c e1 = Inr (ok, e')" by simp
    from Suc.IH[OF this] i show ?thesis by auto
  next
    case False
    with Suc.prems a have "e' = e1" by simp
    with i show ?thesis by simp
  qed
qed

lemma flush_idx:
  assumes "flush e = Inr (ok, e')" "bufIdx e \<le> bufSize e"
  shows "bufIdx e' \<le> bufSize e'"
proof (cases "mode e = COMPRESS")
  case True
  with assms obtain ok1 e1 where s: "shift_out e = Inr (ok1, e1)"
    by (auto simp: flush_def split: sum.splits)
  note i = shift_out_idx[OF s assms(2)]
  show ?thesis
  proof (cases "ok1 \<and> bufIdx e1 < bufSize e1")
    case t: True
    with assms True s obtain e2 where p: "put_out (ucast (drop_bit 24 (enc_x2 e1))) e1 = Inr e2"
      and e': "e' = e2"
      by (auto simp: flush_def split: sum.splits)
    from t have "bufIdx e1 < bufSize e1" by simp
    from put_out_idx[OF p this] e' show ?thesis by simp
  next
    case False
    with assms True s have "e' = e1" by (auto simp: flush_def split: if_splits)
    with i show ?thesis by simp
  qed
next
  case False
  with assms show ?thesis by (simp add: flush_def)
qed

lemma compress_loop_idx:
  assumes "compress_loop inp len idx e = Some r" "bufIdx e \<le> bufSize e"
  shows "case r of Inl er \<Rightarrow> True | Inr (ok, e') \<Rightarrow> bufIdx e' \<le> bufSize e'"
  using assms
proof (induction rule: compress_loop.raw_induct[rotated 1, consumes 1])
  case (1 compress_loop inp len idx e r)
  show ?case
  proof (cases r)
    case (Inl a)
    then show ?thesis by simp
  next
    case (Inr oe)
    obtain ok e' where oe: "oe = (ok, e')" by (cases oe)
    show ?thesis
    proof (cases "ucast idx < len")
      case False
      with 1(2,3) Inr oe show ?thesis by simp
    next
      case True
      with 1(2) Inr oe obtain c ok1 e1 where
        e1: "encode 1 e = Inr (ok1, e1)" and rd: "read_byte inp (unat idx) = Inr c"
        by (auto split: sum.splits)
      note k1 = encode_idx[OF e1 1(3)]
      show ?thesis
      proof (cases ok1)
        case f: False
        with 1(2) Inr oe True e1 rd have "e' = e1" by simp
        with k1 Inr oe show ?thesis by simp
      next
        case t: True
        with 1(2) Inr oe True e1 rd obtain ok2 e2 where
          e2: "encode_bits 8 c e1 = Inr (ok2, e2)"
          by (auto split: sum.splits)
        from encode_bits_idx[OF e2] k1 have k2: "bufIdx e2 \<le> bufSize e2" by simp
        show ?thesis
        proof (cases ok2)
          case False
          with 1(2) Inr oe True e1 rd t e2 have "e' = e2" by simp
          with k2 Inr oe show ?thesis by simp
        next
          case True
          with 1(2) Inr oe \<open>ucast idx < len\<close> e1 rd t e2
          have "compress_loop inp len (idx + 1) e2 = Some r" by simp
          from 1(1)[OF this k2] show ?thesis .
        qed
      qed
    qed
  qed
qed

lemma ucast_idx_le:
  assumes "(i::U32) \<le> ucast (bufsize :: size_t)"
  shows "(ucast i :: size_t) \<le> bufsize"
proof -
  from assms have "unat i \<le> unat bufsize mod 2 ^ 32"
    by (simp add: word_le_nat_alt unat_ucast_64_32)
  also have "\<dots> \<le> unat bufsize" by simp
  finally show ?thesis by (simp add: word_le_nat_alt unat_ucast_32_64)
qed

lemma compress_result:
  assumes "fpaq0f2_compress inp len out bufsize = Some (Inr (r, out'))"
  shows "if (inp = None \<and> 0 < len) \<or> (out = None \<and> 0 < bufsize) then r = SIZE_MAX
         else r = bufsize + 1 \<or> r \<le> bufsize"
proof (cases "(inp = None \<and> 0 < len) \<or> (out = None \<and> 0 < bufsize)")
  case True
  with assms show ?thesis by (auto simp: fpaq0f2_compress_def split: if_splits)
next
  case False
  let ?e0 = "\<lparr>predictor = Predictor_init, mode = COMPRESS, inBuf = None, outBuf = out,
      bufIdx = 0, bufSize = ucast bufsize, enc_x1 = 0, enc_x2 = 0xffffffff, enc_x = 0\<rparr>"
  from False assms obtain ok1 e1 where l: "compress_loop inp len 0 ?e0 = Some (Inr (ok1, e1))"
    by (auto simp: fpaq0f2_compress_def Encoder_init_compress_def split: option.splits sum.splits)
  have "bufIdx ?e0 \<le> bufSize ?e0" by simp
  from compress_loop_idx[OF l this] have i1: "bufIdx e1 \<le> bufSize e1" by simp
  from compress_loop_keeps_out[OF l] have s1: "bufSize e1 = ucast bufsize"
    by (simp add: keeps_out_def)
  have "r = bufsize + 1 \<or> r \<le> bufsize"
  proof (cases ok1)
    case False
    with assms \<open>\<not> ((inp = None \<and> 0 < len) \<or> (out = None \<and> 0 < bufsize))\<close> l show ?thesis
      by (auto simp: fpaq0f2_compress_def Encoder_init_compress_def)
  next
    case t1: True
    with assms False l obtain ok2 e2 where e2: "encode 0 e1 = Inr (ok2, e2)"
      by (auto simp: fpaq0f2_compress_def Encoder_init_compress_def split: sum.splits)
    from encode_idx[OF e2 i1] have i2: "bufIdx e2 \<le> bufSize e2" by simp
    from encode_keeps_out[OF e2] s1 have s2: "bufSize e2 = ucast bufsize" by (simp add: keeps_out_def)
    show ?thesis
    proof (cases ok2)
      case False
      with assms \<open>\<not> ((inp = None \<and> 0 < len) \<or> (out = None \<and> 0 < bufsize))\<close> l t1 e2 show ?thesis
        by (auto simp: fpaq0f2_compress_def Encoder_init_compress_def)
    next
      case t2: True
      with assms False l t1 e2 obtain ok3 e3 where e3: "flush e2 = Inr (ok3, e3)"
        by (auto simp: fpaq0f2_compress_def Encoder_init_compress_def split: sum.splits)
      from flush_idx[OF e3 i2] have i3: "bufIdx e3 \<le> bufSize e3" .
      from flush_keeps_out[OF e3] s2 have s3: "bufSize e3 = ucast bufsize" by (simp add: keeps_out_def)
      from assms False l t1 e2 t2 e3 have "r = bufsize + 1 \<or> r = ucast (bufIdx e3)"
        by (auto simp: fpaq0f2_compress_def Encoder_init_compress_def split: if_splits)
      with ucast_idx_le[of "bufIdx e3" bufsize] i3 s3 show ?thesis by auto
    qed
  qed
  with False show ?thesis by auto
qed

lemma decompress_loop_result:
  assumes "decompress_loop e idx out bufsize = Some r" "ucast idx \<le> bufsize"
  shows "case r of Inl er \<Rightarrow> True | Inr (n, out') \<Rightarrow> n = bufsize + 1 \<or> n \<le> bufsize"
  using assms
proof (induction rule: decompress_loop.raw_induct[rotated 1, consumes 1])
  case (1 decompress_loop e idx out bufsize r)
  show ?case
  proof (cases r)
    case (Inl a)
    then show ?thesis by simp
  next
    case (Inr no)
    obtain n out' where no: "no = (n, out')" by (cases no)
    from 1(2) Inr obtain y e1 where d: "decode e = Inr (y, e1)"
      by (auto split: sum.splits)
    show ?thesis
    proof (cases "y \<noteq> 0 \<and> ucast idx < bufsize")
      case True
      with 1(2) Inr no d obtain e2 out1 where
        r: "decompress_loop e2 (idx + 1) out1 bufsize = Some r"
        by (auto split: sum.splits option.splits)
      have "(ucast (idx + 1) :: size_t) \<le> bufsize"
      proof -
        from True have "unat idx < unat bufsize" by (simp add: word_less_nat_alt unat_ucast_32_64)
        moreover have "unat (idx + 1) \<le> unat idx + 1" by (simp add: unat_word_ariths)
        ultimately show ?thesis by (simp add: word_le_nat_alt unat_ucast_32_64)
      qed
      from 1(1)[OF r this] show ?thesis .
    next
      case False
      with 1(2,3) Inr no d have "n = bufsize + 1 \<or> n = ucast idx"
        by (auto split: sum.splits option.splits if_splits)
      with 1(3) Inr no show ?thesis by auto
    qed
  qed
qed

lemma decompress_result:
  assumes "fpaq0f2_decompress inp len out bufsize = Some (Inr (r, out'))"
  shows "if (inp = None \<and> 0 < len) \<or> (out = None \<and> 0 < bufsize) then r = SIZE_MAX
         else r = bufsize + 1 \<or> r \<le> bufsize"
proof (cases "(inp = None \<and> 0 < len) \<or> (out = None \<and> 0 < bufsize)")
  case True
  with assms show ?thesis by (auto simp: fpaq0f2_decompress_def split: if_splits)
next
  case False
  with assms obtain e where "decompress_loop e 0 out bufsize = Some (Inr (r, out'))"
    by (auto simp: fpaq0f2_decompress_def split: sum.splits)
  from decompress_loop_result[OF this] False show ?thesis by auto
qed

section \<open>Round trip\<close>

text \<open>
  Every byte the encoder writes is the top byte shared by both ends of its range, so the
  stream it leaves lies in every range the encoder went through; the decoder, reading that
  stream, therefore takes the same side of each split as the encoder did, and follows it
  state by state.
\<close>

lemma unat_u8_lt: "unat (b::U8) < 256"
  using unsigned_less[of b, where 'a=nat] by simp

lemma wnat_lt: "wnat st j < 2 ^ 32"
  using unat_u8_lt[of "st j"] unat_u8_lt[of "st (j + 1)"] unat_u8_lt[of "st (j + 2)"]
    unat_u8_lt[of "st (j + 3)"]
  by (simp add: wnat_def)

lemma wnat_Suc:
  "wnat st (j + 1) = unat (st (j + 1)) * 16777216 + unat (st (j + 2)) * 65536
     + unat (st (j + 3)) * 256 + unat (st (j + 4))"
proof -
  have e: "j + 1 + 1 = j + 2" "j + 1 + 2 = j + 3" "j + 1 + 3 = j + 4" by simp_all
  show ?thesis unfolding wnat_def e by (rule refl)
qed

lemma wnat_shift: "(wnat st j * 256 + unat (st (j + 4))) mod 2 ^ 32 = wnat st (j + 1)"
proof -
  have "wnat st j * 256 + unat (st (j + 4)) = unat (st j) * 2 ^ 32 + wnat st (j + 1)"
    unfolding wnat_Suc unfolding wnat_def by simp
  then show ?thesis using wnat_lt[of st "j + 1"] by simp
qed

lemma wnat_head: "wnat st j = unat (st j) * 16777216 + wnat st (j + 1) div 256"
proof -
  have "wnat st (j + 1) = (unat (st (j + 1)) * 65536 + unat (st (j + 2)) * 256 + unat (st (j + 3))) * 256
      + unat (st (j + 4))"
    unfolding wnat_Suc by simp
  then have "wnat st (j + 1) div 256 = unat (st (j + 1)) * 65536 + unat (st (j + 2)) * 256 + unat (st (j + 3))"
    using unat_u8_lt[of "st (j + 4)"] by simp
  then show ?thesis by (simp add: wnat_def)
qed

lemma put_out_at:
  assumes "put_out v e = Inr e'" "bufIdx e < bufSize e"
  shows "out_at e' (unat (bufIdx e)) = Some v"
    and "\<And>i. i \<noteq> unat (bufIdx e) \<Longrightarrow> out_at e' i = out_at e i"
    and "unat (bufIdx e') = unat (bufIdx e) + 1"
  using assms put_out_idx[OF assms]
  by (auto simp: put_out_def write_byte_def out_at_def split: sum.splits option.splits)

lemma shift_out_prefix:
  "shift_out e = Inr (ok, e') \<Longrightarrow> i < unat (bufIdx e) \<Longrightarrow> out_at e' i = out_at e i"
proof (induction e rule: shift_out.induct)
  case (1 e)
  show ?case
  proof (cases "msb_equal e \<and> bufIdx e < bufSize e")
    case True
    then obtain e1 where p: "put_out (ucast (drop_bit 24 (enc_x2 e))) e = Inr e1"
      and r: "shift_out (shift_range e1) = Inr (ok, e')"
      using "1.prems" by (subst (asm) shift_out.simps) (auto split: sum.splits)
    from True have lt: "bufIdx e < bufSize e" by simp
    note a = put_out_at[OF p lt]
    have "out_at e' i = out_at (shift_range e1) i"
      using True p r a(3) "1.prems"(2) by (intro "1.IH") (auto simp: shift_range_def)
    also have "\<dots> = out_at e1 i" by (simp add: out_at_def shift_range_def)
    also have "\<dots> = out_at e i" using a(2)[of i] "1.prems"(2) by simp
    finally show ?thesis .
  next
    case False
    then show ?thesis using "1.prems"
      by (subst (asm) shift_out.simps) (auto split: if_splits)
  qed
qed

lemma push8_mod: "((a::nat) * 256) mod 2 ^ 32 = (a mod 2 ^ 24) * 256"
  using mult_mod_left[of a "2^24" 256] by simp

lemma push8_255_mod: "((b::nat) * 256 + 255) mod 2 ^ 32 = (b mod 2 ^ 24) * 256 + 255"
proof -
  define d m where "d = b div 2 ^ 24" and "m = b mod 2 ^ 24"
  have "b = d * 2 ^ 24 + m" by (simp add: d_def m_def)
  then have "b * 256 + 255 = d * 2 ^ 32 + (m * 256 + 255)" by simp
  then have "(b * 256 + 255) mod 2 ^ 32 = (m * 256 + 255) mod 2 ^ 32"
    by (simp only: mod_mult_self3)
  moreover have "m * 256 + 255 < 2 ^ 32"
    using mod_less_divisor[of "2 ^ 24" b] by (simp add: m_def)
  ultimately show ?thesis by (simp add: m_def)
qed

lemma unat_top_byte: "unat (ucast (drop_bit 24 (w::U32)) :: U8) = unat w div 2 ^ 24"
proof -
  have "unat w < 2 ^ 32" by (rule unat_lt)
  then have "unat w div 2 ^ 24 < 256" by simp
  moreover have "unat (drop_bit 24 w) = unat w div 2 ^ 24"
    by (simp add: unat_drop_bit_eq) (simp add: drop_bit_eq_div)
  ultimately show ?thesis
    by (simp add: unsigned_ucast_eq take_bit_eq_mod)
qed

lemma window_back:
  fixes a b W' h :: nat
  assumes "a div 2 ^ 24 = h" "b div 2 ^ 24 = h"
    "(a mod 2 ^ 24) * 256 \<le> W'" "W' \<le> (b mod 2 ^ 24) * 256 + 255"
  shows "a \<le> h * 16777216 + W' div 256 \<and> h * 16777216 + W' div 256 \<le> b"
proof -
  have a: "a = h * 2 ^ 24 + a mod 2 ^ 24" using assms(1) by (simp flip: assms(1))
  have b: "b = h * 2 ^ 24 + b mod 2 ^ 24" using assms(2) by (simp flip: assms(2))
  have "a mod 2 ^ 24 \<le> W' div 256" using assms(3) by simp
  moreover have "W' div 256 \<le> b mod 2 ^ 24" using assms(4) by simp
  ultimately show ?thesis using a b by simp
qed

lemma shift_out_back:
  "shift_out e = Inr (True, e') \<Longrightarrow> enc_x1 e \<le> enc_x2 e \<Longrightarrow> emitted e' st \<Longrightarrow> in_range e' st
     \<Longrightarrow> in_range e st"
proof (induction e rule: shift_out.induct)
  case (1 e)
  show ?case
  proof (cases "msb_equal e")
    case True
    with "1.prems"(1) have lt: "bufIdx e < bufSize e"
      by (subst (asm) shift_out.simps) (auto split: if_splits)
    with True obtain e1 where p: "put_out (ucast (drop_bit 24 (enc_x2 e))) e = Inr e1"
      and r: "shift_out (shift_range e1) = Inr (True, e')"
      using "1.prems"(1) by (subst (asm) shift_out.simps) (auto split: sum.splits)
    let ?j = "unat (bufIdx e)"
    note a = put_out_at[OF p lt]
    note i = put_out_idx[OF p lt]
    note rg = put_out_range[OF p]
    have j1: "unat (bufIdx (shift_range e1)) = ?j + 1" using a(3) by (simp add: shift_range_def)
    have "bufIdx (shift_range e1) \<le> bufSize (shift_range e1)" using i by (simp add: shift_range_def)
    from shift_out_idx[OF r this] have le: "?j + 1 \<le> unat (bufIdx e')"
      using j1 by (simp add: word_le_nat_alt)
    have "out_at e' ?j = out_at (shift_range e1) ?j"
      using shift_out_prefix[OF r, of ?j] j1 by simp
    also have "\<dots> = Some (ucast (drop_bit 24 (enc_x2 e)))"
      using a(1) by (simp add: out_at_def shift_range_def)
    finally have "st ?j = ucast (drop_bit 24 (enc_x2 e))"
      using "1.prems"(3) le by (simp add: emitted_def)
    then have h2: "unat (st ?j) = unat (enc_x2 e) div 2 ^ 24" by (simp only: unat_top_byte)
    have h1: "unat (enc_x1 e) div 2 ^ 24 = unat (enc_x2 e) div 2 ^ 24"
      using True by (simp add: msb_equal_def msb_iff_unat)
    have o: "enc_x1 (shift_range e1) \<le> enc_x2 (shift_range e1)"
      using shift_keeps_order[of "enc_x1 e" "enc_x2 e"] True "1.prems"(2) rg
      by (simp add: shift_range_def msb_equal_def)
    have "in_range (shift_range e1) st"
      using True lt p r o "1.prems"(3,4) by (intro "1.IH") auto
    then have w: "(unat (enc_x1 e) mod 2 ^ 24) * 256 \<le> wnat st (?j + 1)"
      "wnat st (?j + 1) \<le> (unat (enc_x2 e) mod 2 ^ 24) * 256 + 255"
      using rg j1 push8_mod[of "unat (enc_x1 e)"] push8_255_mod[of "unat (enc_x2 e)"]
      by (simp_all add: in_range_def shift_range_def unat_push8 unat_push8_255)
    from window_back[OF h1 refl w] show ?thesis
      unfolding in_range_def wnat_head[of st ?j] h2 by simp
  next
    case False
    with "1.prems" show ?thesis
      by (subst (asm) shift_out.simps) (auto split: if_splits)
  qed
qed

lemma unat_shift_in:
  assumes "unat (x::U32) = wnat st j" "c = uint (st (j + 4))"
  shows "unat (push_bit 8 x + word_of_int c) = wnat st (j + 1)"
proof -
  have "(word_of_int c :: U32) = ucast (st (j + 4))" using assms(2) by simp
  then have "unat (word_of_int c :: U32) = unat (st (j + 4))"
    by (simp add: unsigned_ucast_eq take_bit_eq_mod unat_u8_lt[THEN less_trans])
  then have "unat (push_bit 8 x + word_of_int c) = (wnat st j * 256 + unat (st (j + 4))) mod 2 ^ 32"
    using assms(1) by (simp add: unat_word_ariths unat_push8 mod_simps)
  then show ?thesis by (simp only: wnat_shift)
qed

lemma follows_read:
  assumes f: "follows st e d" and m: "msb_equal e" and lt: "bufIdx e < bufSize e"
    and p: "put_out v e = Inr e1"
  shows "\<exists>c d1. (if bufIdx (shift_range d) < bufSize (shift_range d) then next_in (shift_range d)
               else Inr (0, shift_range d)) = Inr (c, d1)
           \<and> follows st (shift_range e1) (d1\<lparr>enc_x := push_bit 8 (enc_x d1) + word_of_int c\<rparr>)"
proof -
  let ?j = "unat (bufIdx e)" and ?L = "unat (bufSize d)"
  from f obtain mem where mem: "inBuf d = Some mem" "?L \<le> length mem" "st = stream_of mem ?L"
    by (auto simp: follows_def)
  note pp = put_out_props[OF p lt] put_out_range[OF p] put_out_idx[OF p lt]
  show ?thesis
  proof (cases "bufIdx d < bufSize d")
    case True
    then have k: "unat (bufIdx d) < ?L" by (simp add: word_less_nat_alt)
    with f have pos: "unat (bufIdx d) = ?j + 4" by (auto simp: follows_def)
    have c: "st (?j + 4) = mem ! unat (bufIdx d)" using k pos mem(3) by (simp add: stream_of_def)
    have "?L < 2 ^ 32" by (rule unat_lt)
    with k have n: "unat (bufIdx d + 1) = unat (bufIdx d) + 1" by (simp add: unat_word_ariths)
    let ?d1 = "(shift_range d)\<lparr>bufIdx := bufIdx d + 1\<rparr>"
    have r: "next_in (shift_range d) = Inr (uint (mem ! unat (bufIdx d)), ?d1)"
      using k mem by (simp add: next_in_def read_byte_def shift_range_def)
    have x: "unat (push_bit 8 (enc_x d) + word_of_int (uint (mem ! unat (bufIdx d)))) = wnat st (?j + 1)"
      using f c by (intro unat_shift_in) (simp_all add: follows_def)
    have "follows st (shift_range e1) (?d1\<lparr>enc_x := push_bit 8 (enc_x ?d1) + word_of_int (uint (mem ! unat (bufIdx d)))\<rparr>)"
      using f pp x n pos mem unfolding follows_def by (simp add: shift_range_def)
    with True r show ?thesis by (simp add: shift_range_def)
  next
    case False
    then have k: "?L \<le> unat (bufIdx d)" by (simp add: word_less_nat_alt)
    with f have pos: "?L \<le> ?j + 4" by (auto simp: follows_def)
    then have c: "uint (st (?j + 4)) = 0" using mem(3) by (simp add: stream_of_def)
    have x: "unat (push_bit 8 (enc_x d) + word_of_int 0) = wnat st (?j + 1)"
      using f c by (intro unat_shift_in) (simp_all add: follows_def)
    have "follows st (shift_range e1) ((shift_range d)\<lparr>enc_x := push_bit 8 (enc_x (shift_range d)) + word_of_int 0\<rparr>)"
      using f pp x k pos mem unfolding follows_def by (simp add: shift_range_def)
    with False show ?thesis by (simp add: shift_range_def)
  qed
qed

lemma shift_sim:
  "shift_out e = Inr (True, e') \<Longrightarrow> follows st e d \<Longrightarrow>
     \<exists>d'. shift_in d = Inr d' \<and> follows st e' d'"
proof (induction e arbitrary: d rule: shift_out.induct)
  case (1 e)
  show ?case
  proof (cases "msb_equal e")
    case True
    with "1.prems"(1) have lt: "bufIdx e < bufSize e"
      by (subst (asm) shift_out.simps) (auto split: if_splits)
    with True obtain e1 where p: "put_out (ucast (drop_bit 24 (enc_x2 e))) e = Inr e1"
      and r: "shift_out (shift_range e1) = Inr (True, e')"
      using "1.prems"(1) by (subst (asm) shift_out.simps) (auto split: sum.splits)
    from follows_read[OF "1.prems"(2) True lt p] obtain c d1 where
      rd: "(if bufIdx (shift_range d) < bufSize (shift_range d) then next_in (shift_range d)
               else Inr (0, shift_range d)) = Inr (c, d1)"
      and f1: "follows st (shift_range e1) (d1\<lparr>enc_x := push_bit 8 (enc_x d1) + word_of_int c\<rparr>)"
      by blast
    from "1.IH"[OF True lt p r f1] obtain d' where
      s: "shift_in (d1\<lparr>enc_x := push_bit 8 (enc_x d1) + word_of_int c\<rparr>) = Inr d'"
      and f': "follows st e' d'" by blast
    have md: "msb_equal d" using True "1.prems"(2) by (simp add: follows_def msb_equal_def)
    have "shift_in d = Inr d'"
      by (subst shift_in.simps) (simp add: md rd s)
    with f' show ?thesis by blast
  next
    case False
    with "1.prems"(1) have e': "e' = e"
      by (subst (asm) shift_out.simps) (auto split: if_splits)
    have md: "\<not> msb_equal d" using False "1.prems"(2) by (simp add: follows_def msb_equal_def)
    have "shift_in d = Inr d" by (subst shift_in.simps) (simp add: md)
    with e' "1.prems"(2) show ?thesis by blast
  qed
qed

lemma unat_succ: "(a::U32) < b \<Longrightarrow> unat (a + 1) = unat a + 1"
proof -
  assume "a < b"
  then have "unat a < unat b" by (simp add: word_less_nat_alt)
  moreover have "unat b < 2 ^ 32" by (rule unat_lt)
  ultimately show ?thesis by (simp add: unat_word_ariths)
qed

lemma encode_back:
  assumes en: "encode y e = Inr (True, e')" and em: "emitted e' st" and ir: "in_range e' st"
  shows "in_range e st"
proof -
  from en obtain pv pr2 where
    lo: "enc_x1 e \<le> xmid_of (enc_x1 e) (enc_x2 e) (word_of_int pv)"
    and hi: "xmid_of (enc_x1 e) (enc_x2 e) (word_of_int pv) < enc_x2 e"
    and s: "shift_out ((if y \<noteq> 0 then e\<lparr>enc_x2 := xmid_of (enc_x1 e) (enc_x2 e) (word_of_int pv)\<rparr>
                 else e\<lparr>enc_x1 := xmid_of (enc_x1 e) (enc_x2 e) (word_of_int pv) + 1\<rparr>)\<lparr>predictor := pr2\<rparr>)
       = Inr (True, e')"
    by (rule encode_Inr)
  let ?m = "xmid_of (enc_x1 e) (enc_x2 e) (word_of_int pv)"
  let ?e1 = "(if y \<noteq> 0 then e\<lparr>enc_x2 := ?m\<rparr> else e\<lparr>enc_x1 := ?m + 1\<rparr>)\<lparr>predictor := pr2\<rparr>"
  have o: "enc_x1 ?e1 \<le> enc_x2 ?e1" using lo succ_le[OF hi] by simp
  from shift_out_back[OF s o em ir] have r: "in_range ?e1 st" .
  show ?thesis using r lo hi unat_succ[OF hi]
    by (auto simp: in_range_def word_le_nat_alt word_less_nat_alt split: if_splits)
qed

lemma step_sim:
  assumes en: "encode y e = Inr (True, e')" and f: "follows st e d"
    and em: "emitted e' st" and ir: "in_range e' st"
  shows "\<exists>d'. decode d = Inr (y, d') \<and> follows st e' d'"
proof -
  from en obtain pv pr1 pr2 where
    p: "Predictor_p (predictor e) = Inr (pv, pr1)"
    and pv: "(word_of_int pv :: U32) \<le> 0xffff" and y: "y = 0 \<or> y = 1"
    and lo: "enc_x1 e \<le> xmid_of (enc_x1 e) (enc_x2 e) (word_of_int pv)"
    and hi: "xmid_of (enc_x1 e) (enc_x2 e) (word_of_int pv) < enc_x2 e"
    and u: "Predictor_update y pr1 = Inr pr2"
    and s: "shift_out ((if y \<noteq> 0 then e\<lparr>enc_x2 := xmid_of (enc_x1 e) (enc_x2 e) (word_of_int pv)\<rparr>
                 else e\<lparr>enc_x1 := xmid_of (enc_x1 e) (enc_x2 e) (word_of_int pv) + 1\<rparr>)\<lparr>predictor := pr2\<rparr>)
       = Inr (True, e')"
    by (rule encode_Inr)
  let ?m = "xmid_of (enc_x1 e) (enc_x2 e) (word_of_int pv)"
  let ?e1 = "(if y \<noteq> 0 then e\<lparr>enc_x2 := ?m\<rparr> else e\<lparr>enc_x1 := ?m + 1\<rparr>)\<lparr>predictor := pr2\<rparr>"
  let ?d1 = "(if y \<noteq> 0 then d\<lparr>enc_x2 := ?m\<rparr> else d\<lparr>enc_x1 := ?m + 1\<rparr>)\<lparr>predictor := pr2\<rparr>"
  have o: "enc_x1 ?e1 \<le> enc_x2 ?e1" using lo succ_le[OF hi] by simp
  from shift_out_back[OF s o em ir] have r: "in_range ?e1 st" .
  have w: "unat (enc_x d) = wnat st (unat (bufIdx e))" using f by (simp add: follows_def)
  have c: "(enc_x d \<le> ?m) = (y \<noteq> 0)"
    using r w unat_succ[OF hi]
    by (auto simp: in_range_def word_le_nat_alt split: if_splits)
  have "follows st ?e1 ?d1" using f by (simp add: follows_def)
  from shift_sim[OF s this] obtain d' where si: "shift_in ?d1 = Inr d'" and f': "follows st e' d'"
    by blast
  have fd: "predictor d = predictor e" "enc_x1 d = enc_x1 e" "enc_x2 d = enc_x2 e"
    using f by (simp_all add: follows_def)
  have "decode d = Inr (y, d')"
  proof (cases "y = 0")
    case True
    with c have n: "\<not> enc_x d \<le> ?m" by simp
    from si True have "shift_in (d\<lparr>enc_x1 := ?m + 1, predictor := pr2\<rparr>) = Inr d'" by simp
    then show ?thesis
      unfolding decode_def using p pv lo hi u True n by (simp add: fd Let_def)
  next
    case False
    with y have y1: "y = 1" by simp
    with c have n: "enc_x d \<le> ?m" by simp
    from si y1 have "shift_in (d\<lparr>enc_x2 := ?m, predictor := pr2\<rparr>) = Inr d'" by simp
    then show ?thesis
      unfolding decode_def using p pv lo hi u y1 n by (simp add: fd Let_def)
  qed
  with f' show ?thesis by blast
qed

lemma shift_out_mono:
  "shift_out e = Inr (ok, e') \<Longrightarrow> unat (bufIdx e) \<le> unat (bufIdx e')"
proof (induction e rule: shift_out.induct)
  case (1 e)
  show ?case
  proof (cases "msb_equal e \<and> bufIdx e < bufSize e")
    case True
    then obtain e1 where p: "put_out (ucast (drop_bit 24 (enc_x2 e))) e = Inr e1"
      and r: "shift_out (shift_range e1) = Inr (ok, e')"
      using "1.prems" by (subst (asm) shift_out.simps) (auto split: sum.splits)
    from True have lt: "bufIdx e < bufSize e" by simp
    note i = put_out_idx[OF p lt]
    from True p r have "unat (bufIdx (shift_range e1)) \<le> unat (bufIdx e')"
      by (intro "1.IH") auto
    with i show ?thesis by (simp add: shift_range_def)
  next
    case False
    then show ?thesis using "1.prems"
      by (subst (asm) shift_out.simps) (auto split: if_splits)
  qed
qed

lemma shift_out_emitted:
  assumes "shift_out e = Inr (ok, e')" "emitted e' st"
  shows "emitted e st"
  using assms shift_out_prefix[OF assms(1)] shift_out_mono[OF assms(1)]
  by (simp add: emitted_def)

lemma encode_emitted:
  assumes "encode y e = Inr (ok, e')" "emitted e' st"
  shows "emitted e st"
proof -
  from assms(1) obtain e1 where s: "shift_out e1 = Inr (ok, e')"
    and e1: "outBuf e1 = outBuf e" "bufIdx e1 = bufIdx e"
    by (rule encode_Inr) (auto split: if_splits)
  from shift_out_emitted[OF s assms(2)] e1 show ?thesis by (simp add: emitted_def out_at_def)
qed

lemma encode_list_back:
  "encode_list ys e = Inr (True, e') \<Longrightarrow> emitted e' st \<Longrightarrow> in_range e' st
     \<Longrightarrow> emitted e st \<and> in_range e st"
proof (induction ys arbitrary: e)
  case Nil
  then show ?case by simp
next
  case (Cons y ys)
  from Cons.prems(1) obtain e1 where en: "encode y e = Inr (True, e1)"
    and r: "encode_list ys e1 = Inr (True, e')"
    by (auto split: sum.splits if_splits)
  from Cons.IH[OF r Cons.prems(2,3)] have 1: "emitted e1 st" "in_range e1 st" by simp_all
  from encode_back[OF en 1] encode_emitted[OF en 1(1)] show ?case by simp
qed

lemma list_sim:
  "encode_list ys e = Inr (True, e') \<Longrightarrow> follows st e d \<Longrightarrow> emitted e' st \<Longrightarrow> in_range e' st
     \<Longrightarrow> \<exists>d'. decode_list ys d = Some d' \<and> follows st e' d'"
proof (induction ys arbitrary: e d)
  case Nil
  then show ?case by simp
next
  case (Cons y ys)
  from Cons.prems(1) obtain e1 where en: "encode y e = Inr (True, e1)"
    and r: "encode_list ys e1 = Inr (True, e')"
    by (auto split: sum.splits if_splits)
  from encode_list_back[OF r Cons.prems(3,4)] have 1: "emitted e1 st" "in_range e1 st" by simp_all
  from step_sim[OF en Cons.prems(2) 1] obtain d1 where
    de: "decode d = Inr (y, d1)" and f1: "follows st e1 d1" by blast
  from Cons.IH[OF r f1 Cons.prems(3,4)] obtain d' where
    "decode_list ys d1 = Some d'" "follows st e' d'" by blast
  with de show ?case by simp
qed

lemma encode_list_append:
  "encode_list (xs @ ys) e =
     (case encode_list xs e of
        Inl er \<Rightarrow> Inl er
      | Inr (ok, e') \<Rightarrow> if \<not> ok then Inr (False, e') else encode_list ys e')"
  by (induction xs arbitrary: e) (auto split: sum.splits)

lemma encode_bits_list:
  "encode_bits k c e = encode_list (map (\<lambda>i. uint (drop_bit i c) AND 1) (rev [0..<k])) e"
  by (induction k arbitrary: e) (auto split: sum.splits)

lemma flush_back:
  assumes fl: "flush e = Inr (True, e')" and md: "mode e = COMPRESS"
    and o: "enc_x1 e \<le> enc_x2 e" and em: "emitted e' st"
    and z: "\<forall>i \<ge> unat (bufIdx e'). st i = 0"
  shows "emitted e st \<and> in_range e st"
proof -
  from fl md obtain e1 where s: "shift_out e = Inr (True, e1)" and lt: "bufIdx e1 < bufSize e1"
    and p: "put_out (ucast (drop_bit 24 (enc_x2 e1))) e1 = Inr e'"
    by (auto simp: flush_def split: sum.splits if_splits)
  let ?j = "unat (bufIdx e1)"
  note a = put_out_at[OF p lt]
  note sp = shift_out_props[OF s]
  have em1: "emitted e1 st"
    unfolding emitted_def
  proof (intro allI impI)
    fix i assume i: "i < unat (bufIdx e1)"
    then have "out_at e' i = out_at e1 i" by (intro a(2)) simp
    moreover have "out_at e' i = Some (st i)" using em a(3) i by (simp add: emitted_def)
    ultimately show "out_at e1 i = Some (st i)" by simp
  qed
  have "st ?j = ucast (drop_bit 24 (enc_x2 e1))" using em a(1,3) by (simp add: emitted_def)
  then have h2: "unat (st ?j) = unat (enc_x2 e1) div 2 ^ 24" by (simp only: unat_top_byte)
  have w: "wnat st ?j = (unat (enc_x2 e1) div 2 ^ 24) * 16777216"
    using z a(3) h2 by (simp add: wnat_def)
  have ne: "unat (enc_x1 e1) div 2 ^ 24 \<noteq> unat (enc_x2 e1) div 2 ^ 24"
    using sp by (simp add: msb_equal_def msb_iff_unat)
  have le: "unat (enc_x1 e1) \<le> unat (enc_x2 e1)" using sp o by (simp add: word_le_nat_alt)
  then have "unat (enc_x1 e1) div 2 ^ 24 \<le> unat (enc_x2 e1) div 2 ^ 24" by (rule div_le_mono)
  with ne have "unat (enc_x1 e1) div 2 ^ 24 < unat (enc_x2 e1) div 2 ^ 24" by simp
  then have "unat (enc_x1 e1) < (unat (enc_x2 e1) div 2 ^ 24) * 2 ^ 24"
    by (simp add: div_less_iff_less_mult)
  moreover have "(unat (enc_x2 e1) div 2 ^ 24) * 2 ^ 24 \<le> unat (enc_x2 e1)" by simp
  ultimately have "in_range e1 st" unfolding in_range_def w by simp
  from shift_out_back[OF s o em1 this] shift_out_emitted[OF s em1] show ?thesis by simp
qed

lemma window_prefix_lt: "window_prefix st i < 256 ^ i"
proof (induction i)
  case 0 show ?case by simp
next
  case (Suc i)
  have "window_prefix st i * 256 + unat (st i) < (window_prefix st i + 1) * 256" using unat_u8_lt[of "st i"] by simp
  also have "\<dots> \<le> 256 ^ i * 256" using Suc by (intro mult_right_mono) simp_all
  finally show ?case by simp
qed

lemma window_prefix_4: "window_prefix st 4 = wnat st 0"
proof -
  have 4: "(4::nat) = Suc (Suc (Suc (Suc 0)))" by simp
  have n: "Suc (Suc 0) = 2" "Suc (Suc (Suc 0)) = 3" by simp_all
  have "window_prefix st (Suc (Suc (Suc (Suc 0)))) = wnat st 0"
    by (simp only: window_prefix.simps) (simp add: wnat_def n)
  then show ?thesis by (simp only: 4)
qed

lemma uint_and_ff: "uint (b::U8) AND 0xff = uint b"
proof -
  have "(0xff::int) = mask 8" by (simp add: mask_eq_exp_minus_1)
  then have "uint b AND 0xff = take_bit 8 (uint b)" by (simp only: take_bit_eq_mask)
  also have "\<dots> = uint b" by (simp add: take_bit_int_eq_self_iff uint_lt2p[where 'a=8, simplified])
  finally show ?thesis .
qed

lemma unat_init_step:
  assumes "unat (x::U32) = window_prefix st i" "i < 4" "c = uint (st i)"
  shows "unat (push_bit 8 x + word_of_int (c AND 0xff)) = window_prefix st (Suc i)"
proof -
  have "(word_of_int (c AND 0xff) :: U32) = ucast (st i)" using assms(3) by (simp only: uint_and_ff) simp
  then have "unat (word_of_int (c AND 0xff) :: U32) = unat (st i)"
    by (simp add: unsigned_ucast_eq take_bit_eq_mod unat_u8_lt[THEN less_trans])
  then have 1: "unat (push_bit 8 x + word_of_int (c AND 0xff)) = (window_prefix st i * 256 + unat (st i)) mod 2 ^ 32"
    using assms(1) by (simp add: unat_word_ariths unat_push8 mod_simps)
  have "window_prefix st (Suc i) < 256 ^ Suc i" by (rule window_prefix_lt)
  also have "\<dots> \<le> (256::nat) ^ 4" using assms(2) by (intro power_increasing) simp_all
  finally have "window_prefix st i * 256 + unat (st i) < 2 ^ 32" by simp
  with 1 show ?thesis by simp
qed

lemma init_x_run:
  assumes "inBuf d = Some mem" "unat (bufSize d) = L" "L \<le> length mem"
    "4 \<le> L \<or> (L < length mem \<and> mem ! L = 0)"
    "unat (bufIdx d) = min i (L + 1)" "unat (enc_x d) = window_prefix (stream_of mem L) i" "i + k \<le> 4"
  shows "\<exists>d'. init_x k d = Inr d' \<and> unat (enc_x d') = window_prefix (stream_of mem L) (i + k)
            \<and> unat (bufIdx d') = min (i + k) (L + 1) \<and> inBuf d' = inBuf d \<and> bufSize d' = bufSize d
            \<and> predictor d' = predictor d \<and> enc_x1 d' = enc_x1 d \<and> enc_x2 d' = enc_x2 d"
  using assms
proof (induction k arbitrary: d i)
  case 0
  then show ?case by simp
next
  case (Suc k)
  let ?st = "stream_of mem L"
  have i4: "i < 4" using Suc.prems(7) by simp
  show ?case
  proof (cases "i \<le> L")
    case True
    then have bi: "unat (bufIdx d) = i" using Suc.prems(5) by simp
    have g: "bufIdx d \<le> bufSize d" using True bi Suc.prems(2) by (simp add: word_le_nat_alt)
    have il: "i < length mem" using True Suc.prems(3,4) i4 by auto
    have c: "?st i = mem ! i" using True Suc.prems(4) i4 by (auto simp: stream_of_def)
    have "L < 2 ^ 32" using unat_lt[of "bufSize d"] Suc.prems(2) by simp
    with True bi i4 have n: "unat (bufIdx d + 1) = i + 1" by (simp add: unat_word_ariths)
    let ?d1 = "d\<lparr>bufIdx := bufIdx d + 1, enc_x := push_bit 8 (enc_x d) + word_of_int (uint (mem ! i) AND 0xff)\<rparr>"
    have x: "unat (enc_x ?d1) = window_prefix ?st (Suc i)"
      using unat_init_step[OF Suc.prems(6) i4, of "uint (mem ! i)"] c by simp
    have "\<exists>d'. init_x k ?d1 = Inr d' \<and> unat (enc_x d') = window_prefix ?st (Suc i + k)
            \<and> unat (bufIdx d') = min (Suc i + k) (L + 1) \<and> inBuf d' = inBuf ?d1 \<and> bufSize d' = bufSize ?d1
            \<and> predictor d' = predictor ?d1 \<and> enc_x1 d' = enc_x1 ?d1 \<and> enc_x2 d' = enc_x2 ?d1"
      using Suc.prems x n True by (intro Suc.IH) simp_all
    moreover have "init_x (Suc k) d = init_x k ?d1"
      using g il bi Suc.prems(1) by (simp add: next_in_def read_byte_def)
    ultimately show ?thesis by simp
  next
    case False
    then have bi: "unat (bufIdx d) = L + 1" using Suc.prems(5) by simp
    have g: "\<not> bufIdx d \<le> bufSize d" using bi Suc.prems(2) by (simp add: word_le_nat_alt)
    have c: "uint (?st i) = 0" using False by (simp add: stream_of_def)
    let ?d1 = "d\<lparr>enc_x := push_bit 8 (enc_x d) + word_of_int (0 AND 0xff)\<rparr>"
    have x: "unat (enc_x ?d1) = window_prefix ?st (Suc i)"
      using unat_init_step[OF Suc.prems(6) i4, of 0] c by simp
    have "\<exists>d'. init_x k ?d1 = Inr d' \<and> unat (enc_x d') = window_prefix ?st (Suc i + k)
            \<and> unat (bufIdx d') = min (Suc i + k) (L + 1) \<and> inBuf d' = inBuf ?d1 \<and> bufSize d' = bufSize ?d1
            \<and> predictor d' = predictor ?d1 \<and> enc_x1 d' = enc_x1 ?d1 \<and> enc_x2 d' = enc_x2 ?d1"
      using Suc.prems x bi False by (intro Suc.IH) simp_all
    moreover have "init_x (Suc k) d = init_x k ?d1"
      using g by simp
    ultimately show ?thesis by simp
  qed
qed

lemma init_follows:
  assumes "L \<le> length mem" "L < 2 ^ 32" "4 \<le> L \<or> (L < length mem \<and> mem ! L = 0)"
    and e: "predictor e = Predictor_init" "enc_x1 e = 0" "enc_x2 e = 0xffffffff" "bufIdx e = 0"
  shows "\<exists>d. Encoder_init_decompress DECOMPRESS (Some mem) (of_nat L) = Inr d
           \<and> follows (stream_of mem L) e d"
proof -
  let ?d0 = "\<lparr>predictor = Predictor_init, mode = DECOMPRESS, inBuf = Some mem, outBuf = None,
               bufIdx = 0, bufSize = of_nat L, enc_x1 = 0, enc_x2 = 0xffffffff, enc_x = 0\<rparr>"
  have L: "unat (of_nat L :: U32) = L" using assms(2) by (simp add: unat_of_nat)
  have "\<exists>d'. init_x 4 ?d0 = Inr d' \<and> unat (enc_x d') = window_prefix (stream_of mem L) (0 + 4)
            \<and> unat (bufIdx d') = min (0 + 4) (L + 1) \<and> inBuf d' = inBuf ?d0 \<and> bufSize d' = bufSize ?d0
            \<and> predictor d' = predictor ?d0 \<and> enc_x1 d' = enc_x1 ?d0 \<and> enc_x2 d' = enc_x2 ?d0"
    using assms(1,3) L by (intro init_x_run[where mem=mem and L=L]) simp_all
  then obtain d where i: "init_x 4 ?d0 = Inr d" and x: "unat (enc_x d) = wnat (stream_of mem L) 0"
    and b: "unat (bufIdx d) = min 4 (L + 1)" and r: "inBuf d = Some mem" "bufSize d = of_nat L"
      "predictor d = Predictor_init" "enc_x1 d = 0" "enc_x2 d = 0xffffffff"
    by (auto simp: window_prefix_4)
  have "follows (stream_of mem L) e d"
    unfolding follows_def using e x b r L assms(1) by (auto simp: min_def)
  moreover have "Encoder_init_decompress DECOMPRESS (Some mem) (of_nat L) = Inr d"
    using i by (simp add: Encoder_init_decompress_def)
  ultimately show ?thesis by blast
qed

lemma frame_Cons: "frame (c # s) = 1 # bits_of c @ frame s"
  by (simp add: frame_def)

lemma frame_Nil: "frame [] = []"
  by (simp add: frame_def)

lemma unat_len: "n < 2 ^ 32 \<Longrightarrow> unat (of_nat n :: size_t) = n"
  by (simp add: unat_of_nat)

lemma compress_loop_list:
  assumes "length s < 2 ^ 32" "unat idx \<le> length s"
  shows "compress_loop (Some s) (of_nat (length s)) idx e
           = Some (encode_list (frame (drop (unat idx) s)) e)"
  using assms(2)
proof (induction "length s - unat idx" arbitrary: idx e)
  case 0
  then have "unat idx = length s" by simp
  then have "\<not> (ucast idx :: size_t) < of_nat (length s)"
    using assms(1) by (simp add: word_less_nat_alt unat_ucast_32_64 unat_len)
  then show ?case using \<open>unat idx = length s\<close>
    by (subst compress_loop.simps) (simp add: frame_Nil)
next
  case (Suc k)
  then have lt: "unat idx < length s" by simp
  then have g: "(ucast idx :: size_t) < of_nat (length s)"
    using assms(1) by (simp add: word_less_nat_alt unat_ucast_32_64 unat_len)
  from lt assms(1) have n: "unat (idx + 1) = unat idx + 1" by (simp add: unat_word_ariths)
  have d: "drop (unat idx) s = s ! unat idx # drop (Suc (unat idx)) s"
    using lt by (simp add: Cons_nth_drop_Suc)
  have ih: "\<And>e. compress_loop (Some s) (of_nat (length s)) (idx + 1) e
           = Some (encode_list (frame (drop (unat (idx + 1)) s)) e)"
    using Suc.hyps(2) lt n by (intro Suc.hyps(1)) simp_all
  show ?case
    apply (subst compress_loop.simps)
    apply (simp add: g read_byte_def lt d frame_Cons encode_list_append bits_of_def
        encode_bits_list[of 8] ih n split: sum.splits)
    done
qed

lemma decode_list_append:
  "decode_list (xs @ ys) d =
     (case decode_list xs d of None \<Rightarrow> None | Some d1 \<Rightarrow> decode_list ys d1)"
  by (induction xs arbitrary: d) (auto split: sum.splits)

lemma decode_byte_run:
  "decode_list ys d = Some d' \<Longrightarrow> \<forall>k < length ys. foldl (\<lambda>a y. a + (a + y)) c (take k ys) < 256
     \<Longrightarrow> 256 \<le> foldl (\<lambda>a y. a + (a + y)) c ys
     \<Longrightarrow> decode_byte c d = Some (Inr (foldl (\<lambda>a y. a + (a + y)) c ys, d'))"
proof (induction ys arbitrary: c d)
  case Nil
  then show ?case by (subst decode_byte.simps) simp
next
  case (Cons y ys)
  from Cons.prems(2) have c: "c < 256" by (auto dest: spec[of _ 0])
  from Cons.prems(1) obtain d1 where de: "decode d = Inr (y, d1)" and r: "decode_list ys d1 = Some d'"
    by (auto split: sum.splits if_splits)
  have p: "\<forall>k < length ys. foldl (\<lambda>a y. a + (a + y)) (c + (c + y)) (take k ys) < 256"
  proof (intro allI impI)
    fix k assume "k < length ys"
    with Cons.prems(2) have "foldl (\<lambda>a y. a + (a + y)) c (take (Suc k) (y # ys)) < 256"
      by (auto dest: spec[of _ "Suc k"])
    then show "foldl (\<lambda>a y. a + (a + y)) (c + (c + y)) (take k ys) < 256" by simp
  qed
  from Cons.IH[OF r p] Cons.prems(3)
  have "decode_byte (c + (c + y)) d1 = Some (Inr (foldl (\<lambda>a y. a + (a + y)) c (y # ys), d'))"
    by simp
  then show ?case using c de by (subst decode_byte.simps) simp
qed

lemma bit_01: "uint (drop_bit i (c::U8)) AND 1 = of_bool (bit c i)"
proof -
  have "uint (drop_bit i c) AND 1 = of_bool (bit (uint (drop_bit i c)) 0)"
    by (rule and_1_bit)
  also have "bit (uint (drop_bit i c)) 0 = bit c i"
    by (simp add: bit_uint_iff bit_simps)
  finally show ?thesis .
qed

lemma uint_bits:
  "uint (c::U8) = of_bool (bit c 0) + 2 * of_bool (bit c 1) + 4 * of_bool (bit c 2)
     + 8 * of_bool (bit c 3) + 16 * of_bool (bit c 4) + 32 * of_bool (bit c 5)
     + 64 * of_bool (bit c 6) + 128 * of_bool (bit c 7)"
proof -
  have "take_bit 8 (uint c) = uint c"
    by (simp add: take_bit_int_eq_self_iff uint_lt2p[where 'a=8, simplified])
  then have "uint c = take_bit 8 (uint c)" by (rule sym)
  also have "\<dots> = horner_sum of_bool 2 (map (bit (uint c)) [0..<8])"
    by (simp only: horner_sum_bit_eq_take_bit)
  also have "\<dots> = of_bool (bit c 0) + 2 * of_bool (bit c 1) + 4 * of_bool (bit c 2)
     + 8 * of_bool (bit c 3) + 16 * of_bool (bit c 4) + 32 * of_bool (bit c 5)
     + 64 * of_bool (bit c 6) + 128 * of_bool (bit c 7)"
    by (simp add: upt8 bit_uint_iff)
  finally show ?thesis .
qed

lemma rev_upt8: "rev [0..<8] = [7,6,5,4,3,2,1,0]"
  by (simp add: upt8)

lemma take_Cons_nat: "take k (x # xs) = (if k = 0 then [] else x # take (k - 1) xs)"
  by (cases k) simp_all

lemma decode_byte_bits:
  assumes "decode_list (bits_of c) d = Some d'"
  shows "decode_byte 1 d = Some (Inr (256 + uint c, d'))"
proof -
  have t: "foldl (\<lambda>a y. a + (a + y)) 1 (bits_of c) = 256 + uint c"
    unfolding bits_of_def rev_upt8 by (simp add: bit_01 uint_bits[of c])
  have p: "\<forall>k < length (bits_of c). foldl (\<lambda>a y. a + (a + y)) 1 (take k (bits_of c)) < 256"
    unfolding bits_of_def rev_upt8
    by (simp add: bit_01 take_Cons_nat)
  from decode_byte_run[OF assms p] t show ?thesis by simp
qed

lemma decompress_loop_list:
  "decode_list (frame s @ [0]) d = Some d' \<Longrightarrow> unat idx + length s < 2 ^ 32
     \<Longrightarrow> unat idx + length s \<le> unat cap \<Longrightarrow> out \<noteq> None \<or> s = []
     \<Longrightarrow> decompress_loop d idx out cap
           = Some (Inr (of_nat (unat idx + length s), map_option (\<lambda>m. store_list m (unat idx) s) out))"
proof (induction s arbitrary: d idx out)
  case Nil
  then obtain d1 where "decode d = Inr (0, d1)"
    by (auto simp: frame_Nil split: sum.splits if_splits)
  then show ?case
    by (subst decompress_loop.simps) (simp add: option.map_ident)
next
  case (Cons c s)
  from Cons.prems(1) obtain d1 d2 where de: "decode d = Inr (1, d1)"
    and b: "decode_list (bits_of c) d1 = Some d2"
    and r: "decode_list (frame s @ [0]) d2 = Some d'"
    by (auto simp: frame_Cons decode_list_append split: sum.splits if_splits option.splits)
  from Cons.prems(4) obtain m where out: "out = Some m" by auto
  have n: "unat (idx + 1) = unat idx + 1" using Cons.prems(2) by (simp add: unat_word_ariths)
  have g: "(ucast idx :: size_t) < cap"
    using Cons.prems(3) by (simp add: word_less_nat_alt unat_ucast_32_64)
  have ih: "decompress_loop d2 (idx + 1) (Some (m(unat idx \<mapsto> c))) cap
      = Some (Inr (of_nat (unat (idx + 1) + length s),
           map_option (\<lambda>m. store_list m (unat (idx + 1)) s) (Some (m(unat idx \<mapsto> c)))))"
    using Cons.prems(2,3) n by (intro Cons.IH[OF r]) simp_all
  show ?case
    by (subst decompress_loop.simps)
       (simp add: de decode_byte_bits[OF b] g out write_byte_def ih n)
qed

lemma encode_mode:
  assumes "encode y e = Inr (ok, e')"
  shows "mode e' = mode e"
proof -
  from assms obtain e1 where s: "shift_out e1 = Inr (ok, e')" and e1: "mode e1 = mode e"
    by (rule encode_Inr) (auto split: if_splits)
  from shift_out_props[OF s] e1 show ?thesis by simp
qed

lemma encode_list_mode:
  "encode_list ys e = Inr (ok, e') \<Longrightarrow> mode e' = mode e"
  by (induction ys arbitrary: e) (auto split: sum.splits if_splits dest: encode_mode)

lemma ucast_of_nat_unat: "(ucast (n::size_t) :: U32) = of_nat (unat n)"
  by (simp add: unsigned_of_nat)

text \<open>
  A call of \<open>fpaq0f2_compress\<close> that returns a count has encoded the bits of the input
  and the final 0 bit, every call of \<open>encode\<close> returning true, and has flushed.
\<close>

lemma compress_success:
  assumes c: "fpaq0f2_compress (Some s) (of_nat (length s)) buf cap = Some (Inr (n, Some m))"
    and ok: "n \<noteq> cap + 1" and len: "length s < 2 ^ 32"
  obtains e2 e3 where
    "encode_list (frame s @ [0])
       \<lparr>predictor = Predictor_init, mode = COMPRESS, inBuf = None, outBuf = buf, bufIdx = 0,
         bufSize = ucast cap, enc_x1 = 0, enc_x2 = 0xffffffff, enc_x = 0\<rparr> = Inr (True, e2)"
    "flush e2 = Inr (True, e3)" "n = ucast (bufIdx e3)" "outBuf e3 = Some m"
proof -
  let ?e0 = "\<lparr>predictor = Predictor_init, mode = COMPRESS, inBuf = None, outBuf = buf, bufIdx = 0,
                bufSize = ucast cap, enc_x1 = 0, enc_x2 = 0xffffffff, enc_x = 0\<rparr>"
  have cl: "compress_loop (Some s) (of_nat (length s)) 0 ?e0 = Some (encode_list (frame s) ?e0)"
    using compress_loop_list[OF len, of 0 ?e0] by simp
  have ng: "\<not> (buf = None \<and> 0 < cap)" using c by (auto simp: fpaq0f2_compress_def)
  from c ng have "(case Some (encode_list (frame s) ?e0) of
                None \<Rightarrow> None
              | Some (Inl er) \<Rightarrow> Some (Inl er)
              | Some (Inr (ok, e1)) \<Rightarrow>
                  if \<not> ok then Some (Inr (cap + 1, outBuf e1))
                  else
                    (case encode 0 e1 of
                       Inl er \<Rightarrow> Some (Inl er)
                     | Inr (ok2, e2) \<Rightarrow>
                         if \<not> ok2 then Some (Inr (cap + 1, outBuf e2))
                         else
                           (case flush e2 of
                              Inl er \<Rightarrow> Some (Inl er)
                            | Inr (ok3, e3) \<Rightarrow>
                                if \<not> ok3 then Some (Inr (cap + 1, outBuf e3))
                                else Some (Inr (ucast (bufIdx e3), outBuf e3))))) = Some (Inr (n, Some m))"
    unfolding fpaq0f2_compress_def Encoder_init_compress_def cl[symmetric] by simp
  with ok obtain e1 e2 e3 where
    1: "encode_list (frame s) ?e0 = Inr (True, e1)"
    and 2: "encode 0 e1 = Inr (True, e2)"
    and 3: "flush e2 = Inr (True, e3)"
    and n: "n = ucast (bufIdx e3)" and m: "outBuf e3 = Some m"
    by (auto split: sum.splits if_splits)
  have "encode_list (frame s @ [0]) ?e0 = Inr (True, e2)"
    using 1 2 by (simp add: encode_list_append)
  then show thesis using 3 n m by (rule that)
qed

text \<open>
  The round trip. When \<open>fpaq0f2_compress\<close> returns a count \<open>n\<close> for the bytes \<open>s\<close> (and
  not \<open>bufsize + 1\<close>), the decompressor's input memory \<open>mem\<close> starts with the \<open>n\<close> bytes
  written, and the stream has at least four bytes or is followed in \<open>mem\<close> by a zero byte,
  then \<open>fpaq0f2_decompress\<close> with room for \<open>s\<close> returns its length and writes its bytes.
  The last condition is there for the DECOMPRESS constructor, which reads \<open>in[len]\<close> when
  \<open>len < 4\<close>.
\<close>

theorem compress_decompress_roundtrip:
  assumes c: "fpaq0f2_compress (Some s) (of_nat (length s)) buf cap = Some (Inr (n, Some m))"
    and ok: "n \<noteq> cap + 1"
    and len: "length s < 2 ^ 32"
    and mem: "unat n \<le> length mem" "\<forall>i < unat n. m i = Some (mem ! i)"
    and tail: "4 \<le> unat n \<or> (unat n < length mem \<and> mem ! unat n = 0)"
    and room: "length s \<le> unat cap'" "out \<noteq> None \<or> cap' = 0"
  shows "fpaq0f2_decompress (Some mem) n out cap'
           = Some (Inr (of_nat (length s), map_option (\<lambda>m. store_list m 0 s) out))"
proof -
  let ?e0 = "\<lparr>predictor = Predictor_init, mode = COMPRESS, inBuf = None, outBuf = buf, bufIdx = 0,
                bufSize = ucast cap, enc_x1 = 0, enc_x2 = 0xffffffff, enc_x = 0\<rparr>"
  from c ok len obtain e2 e3 where
    12: "encode_list (frame s @ [0]) ?e0 = Inr (True, e2)"
    and 3: "flush e2 = Inr (True, e3)"
    and n: "n = ucast (bufIdx e3)" and m: "outBuf e3 = Some m"
    by (rule compress_success)
  from 12 obtain e1 where 2: "encode 0 e1 = Inr (True, e2)"
    by (auto simp: encode_list_append split: sum.splits if_splits)
  let ?L = "unat n"
  let ?st = "stream_of mem ?L"
  have L: "?L = unat (bufIdx e3)" using n by (simp add: unat_ucast_32_64)
  have L32: "?L < 2 ^ 32" unfolding L by (rule unat_lt)
  have em3: "emitted e3 ?st"
    using mem(2) m by (simp add: emitted_def out_at_def stream_of_def flip: L)
  have z: "\<forall>i \<ge> unat (bufIdx e3). ?st i = 0" by (simp add: stream_of_def flip: L)
  have md: "mode e2 = COMPRESS"
    using encode_list_mode[OF 12] by simp
  from flush_back[OF 3 md encode_order[OF 2] em3 z]
  have em2: "emitted e2 ?st" and ir2: "in_range e2 ?st" by simp_all
  from init_follows[OF mem(1) L32 tail, of ?e0] obtain d0 where
    i: "Encoder_init_decompress DECOMPRESS (Some mem) (of_nat ?L) = Inr d0"
    and f: "follows ?st ?e0 d0" by auto
  from list_sim[OF 12 f em2 ir2] obtain d' where
    dl: "decode_list (frame s @ [0]) d0 = Some d'" by blast
  have s0: "out \<noteq> None \<or> s = []" using room by auto
  from decompress_loop_list[OF dl _ _ s0, of 0 cap'] len room(1)
  have "decompress_loop d0 0 out cap'
      = Some (Inr (of_nat (length s), map_option (\<lambda>m. store_list m 0 s) out))"
    by simp
  moreover have "\<not> (out = None \<and> 0 < cap')" using room(2) by auto
  moreover have "Encoder_init_decompress DECOMPRESS (Some mem) (ucast n) = Inr d0"
    unfolding ucast_of_nat_unat by (rule i)
  ultimately show ?thesis
    unfolding fpaq0f2_decompress_def by auto
qed

text \<open>
  The count that \<open>fpaq0f2_compress\<close> returns is the number of bytes it wrote, at the
  indices from 0 on.
\<close>

lemma put_out_filled:
  assumes "put_out v e = Inr e'" "bufIdx e < bufSize e" "filled e"
  shows "filled e'"
  unfolding filled_def
proof (intro allI impI)
  fix i assume i: "i < unat (bufIdx e')"
  note a = put_out_at[OF assms(1,2)]
  show "out_at e' i \<noteq> None"
  proof (cases "i = unat (bufIdx e)")
    case True
    with a(1) show ?thesis by simp
  next
    case False
    with i a(3) have "i < unat (bufIdx e)" by simp
    with assms(3) a(2)[OF False] show ?thesis by (simp add: filled_def)
  qed
qed

lemma shift_out_filled:
  "shift_out e = Inr (ok, e') \<Longrightarrow> filled e \<Longrightarrow> filled e'"
proof (induction e rule: shift_out.induct)
  case (1 e)
  show ?case
  proof (cases "msb_equal e \<and> bufIdx e < bufSize e")
    case True
    then obtain e1 where p: "put_out (ucast (drop_bit 24 (enc_x2 e))) e = Inr e1"
      and r: "shift_out (shift_range e1) = Inr (ok, e')"
      using "1.prems" by (subst (asm) shift_out.simps) (auto split: sum.splits)
    from True have lt: "bufIdx e < bufSize e" by simp
    from put_out_filled[OF p lt "1.prems"(2)] have "filled (shift_range e1)"
      by (simp add: filled_def out_at_def shift_range_def)
    with True p r show ?thesis by (intro "1.IH") auto
  next
    case False
    then show ?thesis using "1.prems"
      by (subst (asm) shift_out.simps) (auto split: if_splits)
  qed
qed

lemma encode_filled:
  assumes "encode y e = Inr (ok, e')" "filled e"
  shows "filled e'"
proof -
  from assms(1) obtain e1 where s: "shift_out e1 = Inr (ok, e')"
    and e1: "outBuf e1 = outBuf e" "bufIdx e1 = bufIdx e"
    by (rule encode_Inr) (auto split: if_splits)
  from assms(2) e1 have "filled e1" by (simp add: filled_def out_at_def)
  from shift_out_filled[OF s this] show ?thesis .
qed

lemma encode_list_filled:
  "encode_list ys e = Inr (ok, e') \<Longrightarrow> filled e \<Longrightarrow> filled e'"
  by (induction ys arbitrary: e) (auto split: sum.splits if_splits dest: encode_filled)

lemma flush_filled:
  assumes "flush e = Inr (True, e')" "filled e"
  shows "filled e'"
proof (cases "mode e = COMPRESS")
  case True
  with assms(1) obtain e1 where s: "shift_out e = Inr (True, e1)" and lt: "bufIdx e1 < bufSize e1"
    and p: "put_out (ucast (drop_bit 24 (enc_x2 e1))) e1 = Inr e'"
    by (auto simp: flush_def split: sum.splits if_splits)
  from put_out_filled[OF p lt shift_out_filled[OF s assms(2)]] show ?thesis .
next
  case False
  with assms show ?thesis by (simp add: flush_def)
qed

lemma compress_filled:
  assumes c: "fpaq0f2_compress (Some s) (of_nat (length s)) buf cap = Some (Inr (n, Some m))"
    and ok: "n \<noteq> cap + 1" and len: "length s < 2 ^ 32"
  shows "\<forall>i < unat n. m i \<noteq> None"
proof -
  from c ok len obtain e2 e3 where
    12: "encode_list (frame s @ [0])
       \<lparr>predictor = Predictor_init, mode = COMPRESS, inBuf = None, outBuf = buf, bufIdx = 0,
         bufSize = ucast cap, enc_x1 = 0, enc_x2 = 0xffffffff, enc_x = 0\<rparr> = Inr (True, e2)"
    and 3: "flush e2 = Inr (True, e3)" and n: "n = ucast (bufIdx e3)" and m: "outBuf e3 = Some m"
    by (rule compress_success)
  have "filled e3"
    by (rule flush_filled[OF 3 encode_list_filled[OF 12]]) (simp add: filled_def)
  then show ?thesis using n m by (simp add: filled_def out_at_def unat_ucast_32_64)
qed

text \<open>
  When the stream has at least four bytes, decompressing exactly the bytes that
  \<open>fpaq0f2_compress\<close> wrote returns the input.
\<close>

theorem roundtrip_exact_stream:
  assumes c: "fpaq0f2_compress (Some s) (of_nat (length s)) buf cap = Some (Inr (n, Some m))"
    and ok: "n \<noteq> cap + 1" and len: "length s < 2 ^ 32"
    and four: "4 \<le> unat n"
    and room: "length s \<le> unat cap'" "out \<noteq> None \<or> cap' = 0"
  shows "fpaq0f2_decompress (Some (map (\<lambda>i. the (m i)) [0..<unat n])) n out cap'
           = Some (Inr (of_nat (length s), map_option (\<lambda>m. store_list m 0 s) out))"
proof (rule compress_decompress_roundtrip[OF c ok len _ _ _ room])
  show "unat n \<le> length (map (\<lambda>i. the (m i)) [0..<unat n])" by simp
  show "\<forall>i<unat n. m i = Some (map (\<lambda>i. the (m i)) [0..<unat n] ! i)"
    using compress_filled[OF c ok len] by auto
  show "4 \<le> unat n \<or> unat n < length (map (\<lambda>i. the (m i)) [0..<unat n])
      \<and> map (\<lambda>i. the (m i)) [0..<unat n] ! unat n = 0"
    using four by simp
qed

section \<open>Runs on concrete inputs\<close>

lemma sm_init_N: "sm_N (StateMap_init n) = n" by (simp add: StateMap_init_def)
lemma sm_init_cxt: "sm_cxt (StateMap_init n) = 0" by (simp add: StateMap_init_def)
lemma encode_bits_8:
  "encode_bits 8 c e = encode_bits (Suc (Suc (Suc (Suc (Suc (Suc (Suc (Suc 0)))))))) c e"
  by (simp add: numeral_eq_Suc)

lemmas run_simps = 
  encode_def decode_def Predictor_p_def Predictor_update_def StateMap_p_def StateMap_update_def
  Predictor_init_def sm_init_nth sm_init_len sm_init_N sm_init_cxt init_cell_def dt_nth
  xmid_of_def msb_equal_def shift_range_def shift_out.simps shift_in.simps
  put_out_def next_in_def write_byte_def read_byte_def flush_def Let_def
  Encoder_init_compress_def Encoder_init_decompress_def init_x_4 encode_bits_8
  compress_loop.simps decode_byte.simps decompress_loop.simps
  fpaq0f2_compress_def fpaq0f2_decompress_def SIZE_MAX_def

text \<open>
  The three bytes \<open>0x12 0x34 0x56\<close> compress to four bytes, and the decoder given exactly
  these four bytes returns the input.
\<close>

lemma roundtrip_four_byte_stream:
  "fpaq0f2_compress (Some [0x12, 0x34, 0x56]) 3 (Some Map.empty) 16
     = Some (Inr (4, Some [0 \<mapsto> 0x76, 1 \<mapsto> 0xb4, 2 \<mapsto> 0xbf, 3 \<mapsto> 0x6e]))
   \<and> fpaq0f2_decompress (Some [0x76, 0xb4, 0xbf, 0x6e]) 4 (Some Map.empty) 3
     = Some (Inr (3, Some [0 \<mapsto> 0x12, 1 \<mapsto> 0x34, 2 \<mapsto> 0x56]))"
proof -
  have c: "fpaq0f2_compress (Some [0x12, 0x34, 0x56]) 3 (Some Map.empty) 16
     = Some (Inr (4, Some [0 \<mapsto> 0x76, 1 \<mapsto> 0xb4, 2 \<mapsto> 0xbf, 3 \<mapsto> 0x6e]))"
    by (simp add: run_simps)
  have i: "\<forall>i < unat (4 :: size_t).
      [0 \<mapsto> 0x76, 1 \<mapsto> 0xb4, 2 \<mapsto> 0xbf, 3 \<mapsto> 0x6e :: U8] i = Some ([0x76, 0xb4, 0xbf, 0x6e] ! i)"
  proof -
    have "\<And>i::nat. i < 4 \<longleftrightarrow> i = 0 \<or> i = 1 \<or> i = 2 \<or> i = 3" by arith
    then show ?thesis by auto
  qed
  have st: "store_list Map.empty 0 [0x12, 0x34, 0x56] = [0 \<mapsto> 0x12, 1 \<mapsto> 0x34, 2 \<mapsto> 0x56]"
    by (simp add: numeral_2_eq_2)
  have "fpaq0f2_decompress (Some [0x76, 0xb4, 0xbf, 0x6e]) 4 (Some Map.empty) 3
     = Some (Inr (of_nat (length [0x12, 0x34, 0x56 :: U8]),
          map_option (\<lambda>m. store_list m 0 [0x12, 0x34, 0x56]) (Some Map.empty)))"
  proof (rule compress_decompress_roundtrip[where buf = "Some Map.empty" and cap = 16
        and m = "[0 \<mapsto> 0x76, 1 \<mapsto> 0xb4, 2 \<mapsto> 0xbf, 3 \<mapsto> 0x6e]"])
    show "fpaq0f2_compress (Some [0x12, 0x34, 0x56]) (of_nat (length [0x12, 0x34, 0x56 :: U8]))
        (Some Map.empty) 16
      = Some (Inr (4, Some [0 \<mapsto> 0x76, 1 \<mapsto> 0xb4, 2 \<mapsto> 0xbf, 3 \<mapsto> 0x6e]))"
      using c by simp
    show "\<forall>i < unat (4 :: size_t).
      [0 \<mapsto> 0x76, 1 \<mapsto> 0xb4, 2 \<mapsto> 0xbf, 3 \<mapsto> 0x6e :: U8] i = Some ([0x76, 0xb4, 0xbf, 0x6e] ! i)"
      by (rule i)
  qed simp_all
  then have "fpaq0f2_decompress (Some [0x76, 0xb4, 0xbf, 0x6e]) 4 (Some Map.empty) 3
     = Some (Inr (3, Some [0 \<mapsto> 0x12, 1 \<mapsto> 0x34, 2 \<mapsto> 0x56]))"
    unfolding st[symmetric] by simp
  with c show ?thesis by simp
qed

theorem stores_below_capacity_witness:
  "fpaq0f2_compress (Some []) 0 (Some Map.empty) 8 = Some (Inr (1, Some [0 \<mapsto> 0xff]))
   \<and> writes_below 8 (Some Map.empty) (Some [0 \<mapsto> 0xff])
   \<and> fpaq0f2_decompress (Some [127, 255, 0]) 2 (Some Map.empty) 1 = Some (Inr (1, Some [0 \<mapsto> 0]))
   \<and> writes_below 1 (Some Map.empty) (Some [0 \<mapsto> 0])"
proof -
  have c: "fpaq0f2_compress (Some []) 0 (Some Map.empty) 8 = Some (Inr (1, Some [0 \<mapsto> 0xff]))"
    by (simp add: run_simps)
  have d: "fpaq0f2_decompress (Some [127, 255, 0]) 2 (Some Map.empty) 1
      = Some (Inr (1, Some [0 \<mapsto> 0]))"
    by (simp add: run_simps)
  from stores_below_capacity[where inp = "Some []" and len = 0 and out = "Some Map.empty"
      and bufsize = 8 and r = 1 and out' = "Some [0 \<mapsto> 0xff]"] c
  have 1: "writes_below 8 (Some Map.empty) (Some [0 \<mapsto> 0xff])" by simp
  from stores_below_capacity[where inp = "Some [127, 255, 0]" and len = 2 and out = "Some Map.empty"
      and bufsize = 1 and r = 1 and out' = "Some [0 \<mapsto> 0]"] d
  have 2: "writes_below 1 (Some Map.empty) (Some [0 \<mapsto> 0])" by simp
  from c d 1 2 show ?thesis by (simp only: simp_thms)
qed

text \<open>
  C1 fails on the code. The empty input compresses to the single byte \<open>0xff\<close>, and
  decompressing exactly this byte reads a second byte past its end. The two bytes
  \<open>0xff 0xff\<close> compress to the three bytes \<open>0x00 0x00 0xb8\<close>. Decompressing exactly these
  three bytes reads a fourth byte past their end; when the caller's memory goes on with a
  byte \<open>0xff\<close>, the call returns the four bytes \<open>0xff 0xfe 0xff 0xdf\<close>. With a byte 0
  there it returns the input.
\<close>

theorem roundtrip_short_stream:
  "fpaq0f2_compress (Some []) 0 (Some Map.empty) 8 = Some (Inr (1, Some [0 \<mapsto> 0xff]))
   \<and> fpaq0f2_decompress (Some [0xff]) 1 (Some Map.empty) 8 = Some (Inl OutOfBounds)
   \<and> fpaq0f2_compress (Some [0xff, 0xff]) 2 (Some Map.empty) 8
     = Some (Inr (3, Some [0 \<mapsto> 0, 1 \<mapsto> 0, 2 \<mapsto> 0xb8]))
   \<and> fpaq0f2_decompress (Some [0, 0, 0xb8]) 3 (Some Map.empty) 8 = Some (Inl OutOfBounds)
   \<and> fpaq0f2_decompress (Some [0, 0, 0xb8, 0xff]) 3 (Some Map.empty) 8
     = Some (Inr (4, Some [0 \<mapsto> 0xff, 1 \<mapsto> 0xfe, 2 \<mapsto> 0xff, 3 \<mapsto> 0xdf]))
   \<and> fpaq0f2_decompress (Some [0, 0, 0xb8, 0]) 3 (Some Map.empty) 8
     = Some (Inr (2, Some [0 \<mapsto> 0xff, 1 \<mapsto> 0xff]))"
proof (intro conjI)
  show "fpaq0f2_compress (Some []) 0 (Some Map.empty) 8 = Some (Inr (1, Some [0 \<mapsto> 0xff]))"
    by (simp add: run_simps)
  show "fpaq0f2_decompress (Some [0xff]) 1 (Some Map.empty) 8 = Some (Inl OutOfBounds)"
    by (simp add: run_simps)
  show "fpaq0f2_compress (Some [0xff, 0xff]) 2 (Some Map.empty) 8
     = Some (Inr (3, Some [0 \<mapsto> 0, 1 \<mapsto> 0, 2 \<mapsto> 0xb8]))"
    by (simp add: run_simps)
  show "fpaq0f2_decompress (Some [0, 0, 0xb8]) 3 (Some Map.empty) 8 = Some (Inl OutOfBounds)"
    by (simp add: run_simps)
  show "fpaq0f2_decompress (Some [0, 0, 0xb8, 0xff]) 3 (Some Map.empty) 8
     = Some (Inr (4, Some [0 \<mapsto> 0xff, 1 \<mapsto> 0xfe, 2 \<mapsto> 0xff, 3 \<mapsto> 0xdf]))"
    by (simp add: run_simps)
  show "fpaq0f2_decompress (Some [0, 0, 0xb8, 0]) 3 (Some Map.empty) 8
     = Some (Inr (2, Some [0 \<mapsto> 0xff, 1 \<mapsto> 0xff]))"
    by (simp add: run_simps)
qed

text \<open>
  C2 fails on the code. A null input with length 0 passes the argument check, and the
  constructor of the decoder then reads through the null pointer; with an empty buffer it
  reads outside it. Neither call returns a count or a sentinel.
\<close>

theorem decompress_empty_input:
  "fpaq0f2_decompress None 0 (Some Map.empty) 8 = Some (Inl NullDeref)
   \<and> fpaq0f2_decompress None 0 None 0 = Some (Inl NullDeref)
   \<and> fpaq0f2_decompress (Some []) 0 (Some Map.empty) 8 = Some (Inl OutOfBounds)"
  by (simp add: run_simps)

end
